theory Spec2Isabelle
  imports Complex_Main "HOL-Library.Multiset" "HOL-Library.Log_Nat"
begin

section \<open>Numbers and containers\<close>

text \<open>
  A finite C++ \<^verbatim>\<open>double\<close> is modelled as the real number it is.  The arithmetic of the
  samplers and of the rank sums is the one of the real numbers; the arithmetic of the
  crowding distance, where \<^verbatim>\<open>DBL_MAX\<close> is an operand and ties decide, is the rounded one
  of the doubles (see the section on rounded arithmetic).  A value of the type \<open>double\<close>
  below may also be an infinity or a NaN: at the boundary to the user's objective, where
  the source tests \<^verbatim>\<open>isnan\<close> and \<^verbatim>\<open>isfinite\<close>, and as a result of rounded arithmetic.
\<close>

datatype double = Fin real | PInf | NInf | NaN

fun isnan :: "double \<Rightarrow> bool" where
  "isnan NaN = True"
| "isnan _ = False"

fun isfinite :: "double \<Rightarrow> bool" where
  "isfinite (Fin _) = True"
| "isfinite _ = False"

text \<open>The comparison \<^verbatim>\<open>a < b\<close> of IEEE doubles: false as soon as one side is a NaN.\<close>

fun dless :: "double \<Rightarrow> double \<Rightarrow> bool" where
  "dless (Fin a) (Fin b) = (a < b)"
| "dless NaN _ = False"
| "dless _ NaN = False"
| "dless NInf NInf = False"
| "dless NInf _ = True"
| "dless _ NInf = False"
| "dless PInf _ = False"
| "dless _ PInf = True"

definition DBL_MAX :: real where
  "DBL_MAX = (2 - 1 / 2 ^ 52) * 2 ^ 1023"

text \<open>The same number written out, as the equation that evaluation uses.\<close>

lemma DBL_MAX_numeral [code]:
  "DBL_MAX = 179769313486231570814527423731704356798070567525844996598917476803157260780028538760589558632766878171540458953514382464234321326889464182768467546703537516986049910576551282076245490090389328944075868508455133942304583236903222948165808559332123348274797826204144723168738177180919299881250404026184124858368"
  unfolding DBL_MAX_def by simp

text \<open>
  \<^verbatim>\<open>vec\<close> is a column vector; \<^verbatim>\<open>mat\<close> is a column-major matrix, kept as the list of its
  columns, so that \<^verbatim>\<open>m.col(p)\<close> is \<open>m ! p\<close> and \<^verbatim>\<open>m(j, p)\<close> is \<open>m ! p ! j\<close>.
\<close>

type_synonym vec = "real list"
type_synonym mat = "real list list"

definition zeros :: "nat \<Rightarrow> vec" where
  "zeros n = replicate n 0"

text \<open>
  The objective \<^verbatim>\<open>bool (*callback_type)(int, const double*, double*)\<close>: the model
  of a callback gives the value the callback leaves in \<^verbatim>\<open>res[0]\<close>.
\<close>

type_synonym callback_type = "nat \<Rightarrow> vec \<Rightarrow> double"

text \<open>The cast \<^verbatim>\<open>(int) v\<close> of a double truncates towards zero.\<close>

definition to_int :: "real \<Rightarrow> int" where
  "to_int v = (if 0 \<le> v then \<lfloor>v\<rfloor> else \<lceil>v\<rceil>)"

section \<open>LDE: the fitness wrapper (ldeoptimizer.cpp)\<close>

text \<open>
  The class \<^verbatim>\<open>Fitness\<close> of \<^verbatim>\<open>l_differential_evolution\<close>.  The generator \<^verbatim>\<open>*rs\<close> is
  shared with the optimizer; it is modelled by the list \<open>rs\<close> of the draws it is still
  going to deliver, each call of a distribution taking the head.  A run that asks for
  more draws than the list holds has no result (\<open>None\<close>).  \<open>calls\<close> is a ghost field:
  the arguments the objective has been called with, oldest first.  An empty \<open>lower\<close>
  stands for \<^verbatim>\<open>lower.size() == 0\<close> (no bounds).  The counter, a \<^verbatim>\<open>long\<close> of 64 bits,
  is an integer without bound: no run counts up to the limit of a \<^verbatim>\<open>long\<close>.
\<close>

record Fitness =
  func :: callback_type
  dim :: nat
  lower :: vec
  upper :: vec
  guess :: vec
  xmean :: vec
  sigma0 :: vec
  sigma :: vec
  maxSigma :: vec
  scale :: vec
  invScale :: vec
  rs :: "real list"
  evaluationCounter :: int
  calls :: "vec list"

definition eval :: "vec \<Rightarrow> Fitness \<Rightarrow> double \<times> Fitness" where
  "eval X f =
    (let res = func f (dim f) X;
         res = (if isnan res \<or> \<not> isfinite res then Fin (10 ^ 99) else res)
     in (res, f\<lparr>evaluationCounter := evaluationCounter f + 1, calls := calls f @ [X]\<rparr>))"

text \<open>
  \<^verbatim>\<open>int getEvaluations()\<close> returns the \<^verbatim>\<open>long\<close> counter as an \<^verbatim>\<open>int\<close>: the value is
  narrowed to 32 bits, and from \<open>2 ^ 31\<close> on it wraps around to the negative numbers.
\<close>

definition to_int32 :: "int \<Rightarrow> int" where
  "to_int32 c = (c + 2 ^ 31) mod 2 ^ 32 - 2 ^ 31"

definition getEvaluations :: "Fitness \<Rightarrow> int" where
  "getEvaluations f = to_int32 (evaluationCounter f)"

section \<open>LDE: sampling and repair (ldeoptimizer.cpp)\<close>

text \<open>
  The two distributions.  \<^verbatim>\<open>distr_01\<close> delivers a number in \<open>[0, 1)\<close>; a list whose next
  draw is outside this interval does not describe a run (\<open>None\<close>).  \<^verbatim>\<open>gauss_01\<close> delivers
  any real number.
\<close>

definition distr_01 :: "Fitness \<Rightarrow> (real \<times> Fitness) option" where
  "distr_01 f =
    (case rs f of
       [] \<Rightarrow> None
     | u # r \<Rightarrow> if 0 \<le> u \<and> u < 1 then Some (u, f\<lparr>rs := r\<rparr>) else None)"

definition gauss_01 :: "Fitness \<Rightarrow> (real \<times> Fitness) option" where
  "gauss_01 f = (case rs f of [] \<Rightarrow> None | g # r \<Rightarrow> Some (g, f\<lparr>rs := r\<rparr>))"

definition normreal :: "real \<Rightarrow> real \<Rightarrow> Fitness \<Rightarrow> (real \<times> Fitness) option" where
  "normreal mean sdev f =
    (case gauss_01 f of None \<Rightarrow> None | Some (g, f) \<Rightarrow> Some (g * sdev + mean, f))"

text \<open>\<^verbatim>\<open>normalVec\<close> draws \<open>dim\<close> standard normal numbers at once.\<close>

definition normalVec :: "vec \<Rightarrow> vec \<Rightarrow> nat \<Rightarrow> Fitness \<Rightarrow> (vec \<times> Fitness) option" where
  "normalVec mean sdev n f =
    (if length (rs f) < n then None
     else Some (map (\<lambda>j. rs f ! j * sdev ! j + mean ! j) [0..<n], f\<lparr>rs := drop n (rs f)\<rparr>))"

definition feasible :: "Fitness \<Rightarrow> nat \<Rightarrow> real \<Rightarrow> bool" where
  "feasible f i x \<longleftrightarrow> lower f = [] \<or> (lower f ! i \<le> x \<and> x \<le> upper f ! i)"

definition getClosestFeasible :: "Fitness \<Rightarrow> vec \<Rightarrow> vec" where
  "getClosestFeasible f X =
    (if lower f \<noteq> [] then map (\<lambda>j. max (min (X ! j) (upper f ! j)) (lower f ! j)) [0..<length X]
     else X)"

definition updateSigma :: "vec \<Rightarrow> Fitness \<Rightarrow> Fitness" where
  "updateSigma X f =
    f\<lparr>sigma := map (\<lambda>j. min (\<bar>xmean f ! j - X ! j\<bar> * 0.5) (maxSigma f ! j)) [0..<length X],
      xmean := X\<rparr>"

definition normX :: "Fitness \<Rightarrow> (vec \<times> Fitness) option" where
  "normX f =
    (case distr_01 f of
       None \<Rightarrow> None
     | Some (u, f) \<Rightarrow>
         (case normalVec (xmean f) (if u < 0.5 then sigma0 f else sigma f) (Fitness.dim f) f of
            None \<Rightarrow> None
          | Some (v, f) \<Rightarrow> Some (getClosestFeasible f v, f)))"

text \<open>
  One \<^verbatim>\<open>do ... while (!feasible(i, nx))\<close> loop of \<^verbatim>\<open>normXi\<close>, for the standard deviation
  \<open>sdev\<close>.  Each round takes a draw, so the loop ends when the list is used up.
\<close>

function normXi_loop :: "nat \<Rightarrow> real \<Rightarrow> Fitness \<Rightarrow> (real \<times> Fitness) option" where
  "normXi_loop i sdev f =
    (case normreal (xmean f ! i) sdev f of
       None \<Rightarrow> None
     | Some (nx, f') \<Rightarrow> if \<not> feasible f' i nx then normXi_loop i sdev f' else Some (nx, f'))"
  by pat_completeness auto
termination
  by (relation "measure (\<lambda>(i, sdev, f). length (rs f))")
    (auto simp: normreal_def gauss_01_def split: list.splits)

declare normXi_loop.simps [simp del]

definition normXi :: "Fitness \<Rightarrow> nat \<Rightarrow> (real \<times> Fitness) option" where
  "normXi f i =
    (case distr_01 f of
       None \<Rightarrow> None
     | Some (u, f) \<Rightarrow>
         if u < 0.5 then normXi_loop i (sigma0 f ! i) f else normXi_loop i (sigma f ! i) f)"

text \<open>The constructor of \<^verbatim>\<open>Fitness\<close>.\<close>

definition constant_vec :: "nat \<Rightarrow> real \<Rightarrow> vec" where
  "constant_vec n val = replicate n val"

definition Fitness_new ::
  "callback_type \<Rightarrow> nat \<Rightarrow> vec \<Rightarrow> vec \<Rightarrow> vec \<Rightarrow> vec \<Rightarrow> real list \<Rightarrow> Fitness" where
  "Fitness_new func' dim' lower_limit upper_limit guess' sigma' rs' =
    (let scale' = (if 0 < length lower_limit
                   then map (\<lambda>j. upper_limit ! j - lower_limit ! j) [0..<length lower_limit]
                   else constant_vec dim' 1.0);
         sigma0' = (if length sigma' = 1
                    then map (\<lambda>j. 0.5 * (scale' ! j * sigma' ! 0)) [0..<dim']
                    else map (\<lambda>j. 0.5 * (scale' ! j * sigma' ! j)) [0..<dim'])
     in \<lparr>func = func', dim = dim', lower = lower_limit, upper = upper_limit, guess = guess',
         xmean = guess', sigma0 = sigma0', sigma = sigma0',
         maxSigma = map (\<lambda>s. 0.25 * s) scale', scale = scale',
         invScale = map (\<lambda>s. 1 / s) scale', rs = rs', evaluationCounter = 0, calls = []\<rparr>)"

section \<open>LDE: the optimizer (ldeoptimizer.cpp)\<close>

text \<open>
  The class \<^verbatim>\<open>LDeOptimizer\<close>.  The wrapper \<^verbatim>\<open>*fitfun\<close> is kept inside the record, and
  with it the generator both share.  \<open>isInt\<close> is \<open>None\<close> for a \<^verbatim>\<open>NULL\<close> pointer.
  \<open>stopfitness\<close> may be an infinity.
\<close>

record LDeOptimizer =
  fitfun :: Fitness
  popsize :: nat
  dim :: nat
  maxEvaluations :: int
  keep :: real
  stopfitness :: double
  iterations :: int
  bestY :: real
  bestX :: vec
  bestI :: nat
  stop :: int
  F0 :: real
  CR0 :: real
  popX :: mat
  popY :: vec
  popIter :: vec
  min_mutate :: real
  max_mutate :: real
  isInt :: "bool list option"

definition init :: "LDeOptimizer \<Rightarrow> LDeOptimizer" where
  "init opt =
    opt\<lparr>popX := replicate (popsize opt) (guess (fitfun opt)),
        popY := replicate (popsize opt) DBL_MAX,
        bestI := 0,
        bestX := guess (fitfun opt),
        popIter := zeros (popsize opt)\<rparr>"

definition LDeOptimizer_new ::
  "Fitness \<Rightarrow> nat \<Rightarrow> int \<Rightarrow> int \<Rightarrow> real \<Rightarrow> double \<Rightarrow> real \<Rightarrow> real \<Rightarrow> real \<Rightarrow> real
    \<Rightarrow> bool list option \<Rightarrow> LDeOptimizer" where
  "LDeOptimizer_new fitfun' dim' popsize' maxEvaluations' keep' stopfitness' F' CR'
      min_mutate' max_mutate' isInt' =
    init \<lparr>fitfun = fitfun',
          popsize = (if 0 < popsize' then nat popsize' else 15 * dim'),
          dim = dim',
          maxEvaluations = (if 0 < maxEvaluations' then maxEvaluations' else 50000),
          keep = (if 0 < keep' then keep' else 30),
          stopfitness = stopfitness',
          iterations = 0,
          bestY = DBL_MAX,
          bestX = [],
          bestI = 0,
          stop = 0,
          F0 = (if 0 < F' then F' else 0.5),
          CR0 = (if 0 < CR' then CR' else 0.9),
          popX = [], popY = [], popIter = [],
          min_mutate = (if 0 < min_mutate' then min_mutate' else 0.1),
          max_mutate = (if 0 < max_mutate' then max_mutate' else 0.5),
          isInt = isInt'\<rparr>"

definition rnd01 :: "LDeOptimizer \<Rightarrow> (real \<times> LDeOptimizer) option" where
  "rnd01 opt =
    (case distr_01 (fitfun opt) of None \<Rightarrow> None | Some (u, f) \<Rightarrow> Some (u, opt\<lparr>fitfun := f\<rparr>))"

definition rndInt :: "nat \<Rightarrow> LDeOptimizer \<Rightarrow> (nat \<times> LDeOptimizer) option" where
  "rndInt mx opt =
    (case rnd01 opt of None \<Rightarrow> None | Some (u, opt) \<Rightarrow> Some (nat (to_int (real mx * u)), opt))"

text \<open>
  \<^verbatim>\<open>modify\<close>.  \<open>modify_loop\<close> is its second loop, over the coordinates still to visit.
\<close>

fun modify_loop ::
  "bool list \<Rightarrow> real \<Rightarrow> nat list \<Rightarrow> vec \<Rightarrow> LDeOptimizer \<Rightarrow> (vec \<times> LDeOptimizer) option" where
  "modify_loop ints limit [] x opt = Some (x, opt)"
| "modify_loop ints limit (i # is) x opt =
    (if ints ! i then
       (case rnd01 opt of
          None \<Rightarrow> None
        | Some (u, opt) \<Rightarrow>
            if u < limit then
              (case normXi (fitfun opt) i of
                 None \<Rightarrow> None
               | Some (v, f) \<Rightarrow>
                   modify_loop ints limit is (x[i := real_of_int (to_int v)]) (opt\<lparr>fitfun := f\<rparr>))
            else modify_loop ints limit is x opt)
     else modify_loop ints limit is x opt)"

definition modify :: "vec \<Rightarrow> LDeOptimizer \<Rightarrow> (vec \<times> LDeOptimizer) option" where
  "modify x opt =
    (case isInt opt of
       None \<Rightarrow> Some (x, opt)
     | Some ints \<Rightarrow>
         let n_ints = real (length (filter (\<lambda>i. ints ! i) [0..<dim opt])) in
         (case rnd01 opt of
            None \<Rightarrow> None
          | Some (u, opt) \<Rightarrow>
              let to_mutate = min_mutate opt + u * (max_mutate opt - min_mutate opt)
              in modify_loop ints (to_mutate / n_ints) [0..<dim opt] x opt))"

definition next_improve :: "vec \<Rightarrow> vec \<Rightarrow> vec \<Rightarrow> LDeOptimizer \<Rightarrow> (vec \<times> LDeOptimizer) option" where
  "next_improve xb x xi opt =
    modify (getClosestFeasible (fitfun opt)
              (map (\<lambda>j. xb ! j + (x ! j - xi ! j) * 0.5) [0..<length xb])) opt"

text \<open>
  The loops \<^verbatim>\<open>do { r = rndInt(popsize); } while (...)\<close> that pick \<^verbatim>\<open>r1\<close> and \<^verbatim>\<open>r2\<close>:
  \<open>bad\<close> is the condition under which the draw is repeated.
\<close>

function pick :: "(nat \<Rightarrow> bool) \<Rightarrow> LDeOptimizer \<Rightarrow> (nat \<times> LDeOptimizer) option" where
  "pick bad opt =
    (case rndInt (popsize opt) opt of
       None \<Rightarrow> None
     | Some (r, opt') \<Rightarrow> if bad r then pick bad opt' else Some (r, opt'))"
  by pat_completeness auto
termination
  by (relation "measure (\<lambda>(bad, opt). length (rs (fitfun opt)))")
    (auto simp: rndInt_def rnd01_def distr_01_def split: list.splits if_splits option.splits)

declare pick.simps [simp del]

text \<open>The loop over the coordinates \<open>j\<close> that builds the trial vector \<open>x\<close>.\<close>

fun trial_loop ::
  "nat \<Rightarrow> real \<Rightarrow> real \<Rightarrow> vec \<Rightarrow> vec \<Rightarrow> vec \<Rightarrow> nat list \<Rightarrow> vec \<Rightarrow> LDeOptimizer
    \<Rightarrow> (vec \<times> LDeOptimizer) option" where
  "trial_loop r CR F xb x1 x2 [] x opt = Some (x, opt)"
| "trial_loop r CR F xb x1 x2 (j # js) x opt =
    (case (if j = r then Some (True, opt)
           else (case rnd01 opt of None \<Rightarrow> None | Some (u, opt) \<Rightarrow> Some (u < CR, opt))) of
       None \<Rightarrow> None
     | Some (cross, opt) \<Rightarrow>
         if cross then
           let xj = xb ! j + F * (x1 ! j - x2 ! j) in
           if \<not> feasible (fitfun opt) j xj then
             (case normXi (fitfun opt) j of
                None \<Rightarrow> None
              | Some (v, f) \<Rightarrow> trial_loop r CR F xb x1 x2 js (x[j := v]) (opt\<lparr>fitfun := f\<rparr>))
           else trial_loop r CR F xb x1 x2 js (x[j := xj]) opt
         else trial_loop r CR F xb x1 x2 js x opt)"

text \<open>
  \<open>eval_opt\<close> is the call \<^verbatim>\<open>fitfun->eval(x)\<close> from the optimizer.  \<open>value_of\<close> reads a
  finite double as the real number it is; what \<^verbatim>\<open>eval\<close> returns is always finite.
  \<open>improve\<close> and \<open>reinit\<close> are the two branches of the test on \<^verbatim>\<open>y\<close>.
\<close>

definition eval_opt :: "vec \<Rightarrow> LDeOptimizer \<Rightarrow> double \<times> LDeOptimizer" where
  "eval_opt x opt = (let (y, f) = eval x (fitfun opt) in (y, opt\<lparr>fitfun := f\<rparr>))"

definition value_of :: "double \<Rightarrow> real" where
  "value_of y = (case y of Fin r \<Rightarrow> r | _ \<Rightarrow> 0)"

definition improve :: "nat \<Rightarrow> vec \<Rightarrow> vec \<Rightarrow> vec \<Rightarrow> double \<Rightarrow> LDeOptimizer
    \<Rightarrow> (bool \<times> LDeOptimizer) option" where
  "improve p xb xp x y opt =
    (case next_improve xb x xp opt of
       None \<Rightarrow> None
     | Some (x2, opt) \<Rightarrow>
         let (y2, opt) = eval_opt x2 opt;
             (x, y) = (if isfinite y2 \<and> dless y2 y then (x2, y2) else (x, y));
             opt = opt\<lparr>popX := (popX opt)[p := x], popY := (popY opt)[p := value_of y],
                       popIter := (popIter opt)[p := real_of_int (iterations opt)]\<rparr>
         in if value_of y < popY opt ! bestI opt then
              let opt = opt\<lparr>bestI := p\<rparr> in
              if value_of y < bestY opt then
                let opt = opt\<lparr>fitfun := updateSigma x (fitfun opt), bestY := value_of y, bestX := x\<rparr>
                in if isfinite (stopfitness opt) \<and> dless (Fin (bestY opt)) (stopfitness opt)
                   then Some (True, opt\<lparr>stop := 1\<rparr>)
                   else Some (False, opt)
              else Some (False, opt)
            else Some (False, opt))"

definition reinit :: "nat \<Rightarrow> LDeOptimizer \<Rightarrow> (bool \<times> LDeOptimizer) option" where
  "reinit p opt =
    (case rnd01 opt of
       None \<Rightarrow> None
     | Some (u, opt) \<Rightarrow>
         if keep opt * u < real_of_int (iterations opt) - popIter opt ! p then
           (case normX (fitfun opt) of
              None \<Rightarrow> None
            | Some (v, f) \<Rightarrow>
                Some (False, opt\<lparr>fitfun := f, popX := (popX opt)[p := v],
                                 popY := (popY opt)[p := DBL_MAX]\<rparr>))
         else Some (False, opt))"

text \<open>
  The body of the loop over the slots \<open>p\<close>.  The result says whether the body executed
  \<^verbatim>\<open>return\<close> (the stop fitness was reached).
\<close>

definition slot :: "real \<Rightarrow> real \<Rightarrow> nat \<Rightarrow> LDeOptimizer \<Rightarrow> (bool \<times> LDeOptimizer) option" where
  "slot CR F p opt =
    (let xp = popX opt ! p;
         xb = popX opt ! bestI opt
     in case pick (\<lambda>r1. r1 = p \<or> r1 = bestI opt) opt of
          None \<Rightarrow> None
        | Some (r1, opt) \<Rightarrow>
            (case pick (\<lambda>r2. r2 = p \<or> r2 = bestI opt \<or> r2 = r1) opt of
               None \<Rightarrow> None
             | Some (r2, opt) \<Rightarrow>
                 (case rndInt (dim opt) opt of
                    None \<Rightarrow> None
                  | Some (r, opt) \<Rightarrow>
                      (case trial_loop r CR F xb (popX opt ! r1) (popX opt ! r2)
                              [0..<dim opt] xp opt of
                         None \<Rightarrow> None
                       | Some (x, opt) \<Rightarrow>
                           (case modify x opt of
                              None \<Rightarrow> None
                            | Some (x, opt) \<Rightarrow>
                                let (y, opt) = eval_opt x opt in
                                if isfinite y \<and> dless y (Fin (popY opt ! p))
                                then improve p xb xp x y opt
                                else reinit p opt)))))"

text \<open>The loop over the slots of one generation; it ends early on \<^verbatim>\<open>return\<close>.\<close>

fun generation :: "real \<Rightarrow> real \<Rightarrow> nat list \<Rightarrow> LDeOptimizer \<Rightarrow> (bool \<times> LDeOptimizer) option" where
  "generation CR F [] opt = Some (False, opt)"
| "generation CR F (p # ps) opt =
    (case slot CR F p opt of
       None \<Rightarrow> None
     | Some (returned, opt) \<Rightarrow> if returned then Some (True, opt) else generation CR F ps opt)"

text \<open>
  \<^verbatim>\<open>doOptimize\<close>.  The generation loop runs as long as the budget test holds, so it
  need not end; \<open>fuel\<close> bounds the number of generations, and a run that needs more
  has no result (\<open>None\<close>).
\<close>

fun doOptimize_loop :: "nat \<Rightarrow> LDeOptimizer \<Rightarrow> LDeOptimizer option" where
  "doOptimize_loop 0 opt = None"
| "doOptimize_loop (Suc fuel) opt =
    (if getEvaluations (fitfun opt) < maxEvaluations opt then
       let CR = (if iterations opt mod 2 = 0 then 0.5 * CR0 opt else CR0 opt);
           F = (if iterations opt mod 2 = 0 then 0.5 * F0 opt else F0 opt)
       in case generation CR F [0..<popsize opt] opt of
            None \<Rightarrow> None
          | Some (returned, opt) \<Rightarrow>
              if returned then Some opt
              else doOptimize_loop fuel (opt\<lparr>iterations := iterations opt + 1\<rparr>)
     else Some opt)"

definition doOptimize :: "nat \<Rightarrow> LDeOptimizer \<Rightarrow> LDeOptimizer option" where
  "doOptimize fuel opt = doOptimize_loop fuel (opt\<lparr>iterations := 1\<rparr>)"

section \<open>LDE: the C entry point (ldeoptimizer.cpp)\<close>

text \<open>
  \<^verbatim>\<open>optimizeLDE_C\<close>: the arrays are lists of length \<open>dim\<close>, \<open>seed\<close> is replaced by the
  draws the seeded generator delivers, and the result is the array \<^verbatim>\<open>res\<close>.
\<close>

definition optimizeLDE_C ::
  "nat \<Rightarrow> callback_type \<Rightarrow> nat \<Rightarrow> vec \<Rightarrow> vec \<Rightarrow> real list \<Rightarrow> vec \<Rightarrow> vec \<Rightarrow> int \<Rightarrow> real
    \<Rightarrow> double \<Rightarrow> int \<Rightarrow> real \<Rightarrow> real \<Rightarrow> real \<Rightarrow> real \<Rightarrow> bool list \<Rightarrow> real list option" where
  "optimizeLDE_C fuel func' dim' init' sigma' seed lower' upper' maxEvals keep' stopfitness'
      popsize' F' CR' min_mutate' max_mutate' ints =
    (let useLimit = list_ex (\<lambda>i. lower' ! i \<noteq> 0 \<or> upper' ! i \<noteq> 0) [0..<dim'];
         useIsInt = list_ex (\<lambda>i. ints ! i) [0..<dim'];
         lower_limit = (if useLimit then take dim' lower' else []);
         upper_limit = (if useLimit then take dim' upper' else []);
         fitfun' = Fitness_new func' dim' lower_limit upper_limit (take dim' init')
                     (take dim' sigma') seed;
         opt = LDeOptimizer_new fitfun' dim' popsize' maxEvals keep' stopfitness' F' CR'
                 min_mutate' max_mutate' (if useIsInt then Some (take dim' ints) else None)
     in case doOptimize fuel opt of
          None \<Rightarrow> None
        | Some opt \<Rightarrow>
            Some (take dim' (bestX opt)
                  @ [bestY opt, real_of_int (getEvaluations (fitfun opt)),
                     real_of_int (iterations opt), real_of_int (stop opt)]))"

section \<open>LDE: vocabulary of the statements and example runs\<close>

text \<open>The standard deviations \<^verbatim>\<open>normX\<close> and \<^verbatim>\<open>normXi\<close> use after the uniform draw \<open>u\<close>.\<close>

definition chosen_sigma :: "Fitness \<Rightarrow> real \<Rightarrow> vec" where
  "chosen_sigma f u = (if u < 0.5 then sigma0 f else sigma f)"

text \<open>The sphere function as objective.\<close>

definition sphere :: callback_type where
  "sphere n x = Fin (sum_list (map (\<lambda>v. v * v) x))"

text \<open>
  A wrapper for one coordinate with the bounds \<open>[-1, 1]\<close>, mean 0 and standard deviation
  2, whose generator delivers the uniform draw \<open>1/4\<close> and then the normal draws \<open>5\<close> and
  \<open>1/4\<close>.
\<close>

definition clamp_example :: Fitness where
  "clamp_example = Fitness_new sphere 1 [- 1] [1] [0] [2] [1 / 4, 5, 1 / 4]"

text \<open>
  Two runs through \<^verbatim>\<open>optimizeLDE_C\<close> and \<^verbatim>\<open>doOptimize\<close> with one coordinate, four
  slots and a budget of one evaluation: \<open>lde_seed\<close> are the draws of the first, without
  integer coordinates; \<open>int_opt\<close> is the optimizer of the second, with the guess \<open>1/4\<close>
  for a coordinate flagged as integer, and \<open>int_seed\<close> its draws.
\<close>

definition lde_seed :: "real list" where
  "lde_seed = [1 / 4, 1 / 2, 0, 1 / 2, 3 / 4, 0, 1 / 4, 3 / 4, 0, 1 / 4, 1 / 2, 0]"

definition int_seed :: "real list" where
  "int_seed = [1 / 4, 1 / 2, 0, 0, 9 / 10, 0, 9 / 10,
               1 / 2, 3 / 4, 0, 0, 9 / 10, 0, 9 / 10,
               1 / 4, 3 / 4, 0, 0, 9 / 10, 0, 9 / 10,
               1 / 4, 1 / 2, 0, 0, 9 / 10, 0, 9 / 10]"

definition int_opt :: LDeOptimizer where
  "int_opt = LDeOptimizer_new (Fitness_new sphere 1 [] [] [1 / 4] [1 / 2] int_seed) 1 4 1 30 NInf
     (1 / 2) (9 / 10) (1 / 10) (1 / 2) (Some [True])"

text \<open>
  \<open>kept opt opt'\<close>: a step from \<open>opt\<close> to \<open>opt'\<close> has evaluated nothing and has left
  the population size and the budget alone.
\<close>

definition kept :: "LDeOptimizer \<Rightarrow> LDeOptimizer \<Rightarrow> bool" where
  "kept opt opt' \<longleftrightarrow>
    evaluationCounter (fitfun opt') = evaluationCounter (fitfun opt)
    \<and> popsize opt' = popsize opt \<and> maxEvaluations opt' = maxEvaluations opt"

section \<open>Rounded arithmetic of doubles\<close>

text \<open>
  The crowding distance subtracts and adds fitness values that may be \<^verbatim>\<open>DBL_MAX\<close>, and
  what it returns is compared for ties, so its arithmetic is the one of the doubles:
  every result is rounded to the nearest double, ties to the even mantissa, and a result
  beyond \<^verbatim>\<open>DBL_MAX\<close> is an infinity.

  \<open>flog2 x\<close> is the binary exponent of a positive number, the \<open>e\<close> with
  \<open>2 powi e \<le> x < 2 powi (e + 1)\<close> (see \<open>flog2_bounds\<close>).  \<open>ulp x\<close> is the distance
  between neighbouring doubles at \<open>x\<close>: 53 bits of mantissa, and \<open>2 powi (- 1074)\<close> for
  the subnormal numbers.
  \<open>round_even\<close> rounds to the nearest integer, ties to even.  \<open>fl x\<close> is the double
  that \<open>x\<close> is rounded to; a real number \<open>x\<close> is a double when \<open>fl x = Fin x\<close>.
\<close>

definition flog2 :: "real \<Rightarrow> int" where
  "flog2 x = (if 1 \<le> x then bitlen \<lfloor>x\<rfloor> - 1 else - bitlen (\<lceil>1 / x\<rceil> - 1))"

definition ulp :: "real \<Rightarrow> real" where
  "ulp x = 2 powi max (flog2 \<bar>x\<bar> - 52) (- 1074)"

definition round_even :: "real \<Rightarrow> int" where
  "round_even q =
    (let f = \<lfloor>q\<rfloor>; r = q - of_int f
     in if r < 1 / 2 then f else if 1 / 2 < r then f + 1 else if even f then f else f + 1)"

definition fl :: "real \<Rightarrow> double" where
  "fl x =
    (if x = 0 then Fin 0
     else
       let r = of_int (round_even (x / ulp x)) * ulp x
       in if DBL_MAX < r then PInf else if r < - DBL_MAX then NInf else Fin r)"

definition is_double :: "real \<Rightarrow> bool" where
  "is_double x \<longleftrightarrow> fl x = Fin x"

text \<open>
  \<^verbatim>\<open>a - b\<close> of two finite doubles and \<^verbatim>\<open>a + b\<close> of two doubles, one of which may be an
  infinity or a NaN.
\<close>

definition dsub :: "real \<Rightarrow> real \<Rightarrow> double" where
  "dsub a b = fl (a - b)"

fun dadd :: "double \<Rightarrow> double \<Rightarrow> double" where
  "dadd (Fin a) (Fin b) = fl (a + b)"
| "dadd NaN _ = NaN"
| "dadd _ NaN = NaN"
| "dadd PInf NInf = NaN"
| "dadd NInf PInf = NaN"
| "dadd PInf _ = PInf"
| "dadd _ PInf = PInf"
| "dadd NInf _ = NInf"
| "dadd _ NInf = NInf"

text \<open>
  \<^verbatim>\<open>maxCoeff\<close> of Eigen on a vector that is not empty (Eigen asserts that it is not).
\<close>

definition dmax :: "double \<Rightarrow> double \<Rightarrow> double" where
  "dmax m w = (if dless m w then w else m)"

fun maxCoeff :: "double list \<Rightarrow> double" where
  "maxCoeff (v # vs) = fold (\<lambda>w m. dmax m w) vs v"

text \<open>\<open>dnonneg v\<close>: the double \<open>v\<close> is a number from 0 upwards or the positive infinity.\<close>

fun dnonneg :: "double \<Rightarrow> bool" where
  "dnonneg (Fin r) = (0 \<le> r)"
| "dnonneg PInf = True"
| "dnonneg _ = False"

section \<open>MODE: the ranking kernel (modeoptimizer.cpp)\<close>

definition rows :: "mat \<Rightarrow> nat" where
  "rows y = (case y of [] \<Rightarrow> 0 | c # _ \<Rightarrow> length c)"

definition row :: "mat \<Rightarrow> nat \<Rightarrow> vec" where
  "row y j = map (\<lambda>c. c ! j) y"

text \<open>
  \<^verbatim>\<open>sort_index\<close> is declared in \<^verbatim>\<open>evaluator.h\<close>, which is not among the sources.  The
  functions that call it take it as the parameter \<open>si\<close>; the theorems assume of it only
  that it is \<open>sorting\<close>: \<open>si v\<close> is a permutation of the indices of \<open>v\<close> that lists
  the entries of \<open>v\<close> in ascending order.  The order among equal entries is left open.
  \<open>stable_sort_index\<close> is one such function, used to run the definitions on examples.
\<close>

type_synonym sorter = "vec \<Rightarrow> nat list"

definition sorting :: "sorter \<Rightarrow> bool" where
  "sorting si \<longleftrightarrow> (\<forall>v. mset (si v) = mset [0..<length v] \<and> sorted (map ((!) v) (si v)))"

definition stable_sort_index :: sorter where
  "stable_sort_index v = sort_key ((!) v) [0..<length v]"

text \<open>
  The indexed writes \<^verbatim>\<open>d(idx) = vs\<close> and \<^verbatim>\<open>d(idx) += vs\<close> of Eigen, element by element
  in the order of \<open>idx\<close>.
\<close>

fun assign_at :: "nat list \<Rightarrow> 'a list \<Rightarrow> 'a list \<Rightarrow> 'a list" where
  "assign_at (i # is) (v # vs) d = assign_at is vs (d[i := v])"
| "assign_at _ _ d = d"

fun add_at :: "nat list \<Rightarrow> nat list \<Rightarrow> nat list \<Rightarrow> nat list" where
  "add_at (i # is) (v # vs) d = add_at is vs (d[i := d ! i + v])"
| "add_at _ _ d = d"

text \<open>
  \<^verbatim>\<open>crowd_dist\<close>, in the arithmetic of the doubles.  With fewer than two columns the
  vector \<^verbatim>\<open>d(n - 1)\<close> is empty (or has a negative size) and \<^verbatim>\<open>d.maxCoeff()\<close> is
  undefined: \<open>None\<close>.  The loop over \<open>i\<close> adds the left and the right gap to the zero
  \<^verbatim>\<open>dsum(i)\<close> starts with.  The result vector \<^verbatim>\<open>ds(n)\<close> starts uninitialised in the
  source and as zeros here; every entry is written when \<open>si\<close> returns a permutation.
\<close>

definition crowd_dist :: "sorter \<Rightarrow> mat \<Rightarrow> double list option" where
  "crowd_dist si y =
    (let n = length y in
     if n < 2 then None
     else
       let y0 = row y 0;
           s = si y0;
           y0s = map ((!) y0) s;
           d = map (\<lambda>i. dsub (y0s ! (i + 1)) (y0s ! i)) [0..<n - 1]
       in if maxCoeff d = Fin 0 then Some (map Fin (zeros n))
          else
            let dsum = map (\<lambda>i. let v = Fin 0;
                                    v = (if 0 < i then dadd v (d ! (i - 1)) else v)
                                in if i < n - 1 then dadd v (d ! i) else v) [0..<n];
                dsum = dsum[0 := Fin DBL_MAX];
                dsum = dsum[n - 1 := Fin DBL_MAX]
            in Some (assign_at s dsum (map Fin (zeros n))))"

text \<open>
  \<^verbatim>\<open>sort_index(cd)\<close> of a crowding distance.  The entries of \<open>cd\<close> are doubles from 0 to
  \<^verbatim>\<open>DBL_MAX\<close> or the infinity of an overflowing gap, never a NaN (see \<open>crowd_dist_range\<close>).
  The sort is a parameter on vectors of real numbers, so it is given the entries with the
  infinity at a real number above \<^verbatim>\<open>DBL_MAX\<close>: the order of the entries and the ties
  among them, all the sort can depend on, are those of the doubles.
\<close>

fun sort_value :: "double \<Rightarrow> real" where
  "sort_value (Fin r) = r"
| "sort_value PInf = 2 * DBL_MAX"
| "sort_value NInf = - (2 * DBL_MAX)"
| "sort_value NaN = 0"

definition sort_index_cd :: "sorter \<Rightarrow> double list \<Rightarrow> nat list" where
  "sort_index_cd si cd = si (map sort_value cd)"

text \<open>
  \<^verbatim>\<open>is_dominated(const mat &y, int i, int index)\<close>: no row in which column \<open>i\<close> is
  strictly smaller than column \<open>index\<close>.
\<close>

definition is_dominated_cols :: "mat \<Rightarrow> nat \<Rightarrow> nat \<Rightarrow> bool" where
  "is_dominated_cols y i index = list_all (\<lambda>j. \<not> y ! i ! j < y ! index ! j) [0..<rows y]"

text \<open>
  \<^verbatim>\<open>pareto_levels\<close>.  \<open>next_alive\<close> is the loop
  \<^verbatim>\<open>while (!mask[index] && index < n) index++\<close>; at \<open>index = n\<close> the source reads
  \<^verbatim>\<open>mask[n]\<close> before it tests the bound and leaves the loop whatever it read.
  \<open>kill_dominated\<close> and \<open>count_alive\<close> are the two inner loops over \<open>i\<close>.  The
  domination scores are whole numbers kept in doubles; they are natural numbers here.
\<close>

function next_alive :: "bool list \<Rightarrow> nat \<Rightarrow> nat" where
  "next_alive msk index =
    (if index < length msk \<and> \<not> msk ! index then next_alive msk (index + 1) else index)"
  by pat_completeness auto
termination
  by (relation "measure (\<lambda>(msk, index). length msk - index)") auto

declare next_alive.simps [simp del]

lemma next_alive_ge: "index \<le> next_alive msk index"
  by (induction msk index rule: next_alive.induct) (subst next_alive.simps, auto)

definition kill_dominated :: "mat \<Rightarrow> nat \<Rightarrow> bool list \<Rightarrow> bool list" where
  "kill_dominated y index msk =
    map (\<lambda>i. if i \<noteq> index \<and> msk ! i \<and> is_dominated_cols y i index then False else msk ! i)
      [0..<length y]"

definition count_alive :: "bool list \<Rightarrow> nat list \<Rightarrow> nat list" where
  "count_alive msk domination =
    map (\<lambda>i. if msk ! i then domination ! i + 1 else domination ! i) [0..<length msk]"

function pareto_loop :: "mat \<Rightarrow> nat \<Rightarrow> bool list \<Rightarrow> nat list \<Rightarrow> nat list" where
  "pareto_loop y index msk domination =
    (if index < length y then
       pareto_loop y (next_alive (kill_dominated y index msk) (index + 1))
         (kill_dominated y index msk)
         (count_alive (kill_dominated y index msk) domination)
     else domination)"
  by pat_completeness auto
termination
proof (relation "measure (\<lambda>(y, index, msk, domination). length y - index)")
  show "wf (measure (\<lambda>(y, index, msk, domination). length y - index))" by simp
next
  fix y :: mat and index :: nat and msk :: "bool list" and domination :: "nat list"
  assume "index < length y"
  moreover have "index + 1 \<le> next_alive (kill_dominated y index msk) (index + 1)"
    by (rule next_alive_ge)
  ultimately show "((y, next_alive (kill_dominated y index msk) (index + 1),
      kill_dominated y index msk, count_alive (kill_dominated y index msk) domination),
      (y, index, msk, domination)) \<in> measure (\<lambda>(y, index, msk, domination). length y - index)"
    by simp
qed

declare pareto_loop.simps [simp del]

definition pareto_levels :: "mat \<Rightarrow> nat list" where
  "pareto_levels y = pareto_loop y 0 (replicate (length y) True) (replicate (length y) 0)"

text \<open>
  \<^verbatim>\<open>ranks\<close> and \<^verbatim>\<open>objranks\<close>.  The local matrix \<^verbatim>\<open>rank\<close> is kept as the list of its
  rows.  \<open>ranks_row\<close> is the inner loop of \<^verbatim>\<open>ranks\<close> over the sort positions \<open>i\<close> of
  constraint row \<open>j\<close>.
\<close>

definition ranks_row :: "mat \<Rightarrow> nat list \<Rightarrow> nat \<Rightarrow> vec \<times> vec \<Rightarrow> vec \<times> vec" where
  "ranks_row cons cij j =
    fold (\<lambda>i (r, alpha).
            let c = cij ! i in
            if cons ! c ! j \<le> 0 then (r[c := 0], alpha)
            else (r[c := real i], alpha[c := alpha ! c + 1]))
      [0..<length cons]"

definition ranks :: "sorter \<Rightarrow> mat \<Rightarrow> vec" where
  "ranks si cons =
    (let n = length cons;
         m = rows cons;
         ci = map (\<lambda>i. si (row cons i)) [0..<m];
         (rank, alpha) =
           fold (\<lambda>j (rank, alpha).
                   let (r, alpha) = ranks_row cons (ci ! j) j (zeros n, alpha)
                   in (rank @ [r], alpha))
             [0..<m] ([], zeros n);
         rank = map (\<lambda>j. map (\<lambda>i. rank ! j ! i * (alpha ! i / real m)) [0..<n]) [0..<m]
     in map (\<lambda>i. sum_list (map (\<lambda>j. rank ! j ! i) [0..<m])) [0..<n])"

definition objranks :: "sorter \<Rightarrow> mat \<Rightarrow> vec" where
  "objranks si objs =
    (let n = length objs;
         m = rows objs;
         ci = map (\<lambda>i. si (row objs i)) [0..<m];
         rank = map (\<lambda>j. assign_at (ci ! j) (map real [0..<n]) (zeros n)) [0..<m]
     in map (\<lambda>i. sum_list (map (\<lambda>j. rank ! j ! i) [0..<m])) [0..<n])"

text \<open>
  \<^verbatim>\<open>pareto\<close>, with the members \<^verbatim>\<open>nobj\<close> and \<^verbatim>\<open>ncon\<close> of the optimizer as arguments.
\<close>

definition pareto :: "sorter \<Rightarrow> nat \<Rightarrow> nat \<Rightarrow> mat \<Rightarrow> nat list" where
  "pareto si nobj ncon ys =
    (if ncon = 0 then pareto_levels ys
     else
       let popn = length ys;
           yobj = map (take nobj) ys;
           ycon = map (\<lambda>c. drop (length c - ncon) c) ys;
           csum = ranks si ycon;
           feasible = map (\<lambda>c. Max (set c) \<le> 0) ycon;
           hasFeasible = list_ex (\<lambda>b. b) feasible;
           csum = (if hasFeasible then map2 (+) csum (objranks si yobj) else csum);
           domination = replicate popn 0;
           cy = filter (\<lambda>i. feasible ! i) [0..<popn];
           domination =
             (if hasFeasible then add_at cy (pareto_levels (map ((!) yobj) cy)) domination
              else domination);
           ci = si csum;
           civ = filter (\<lambda>i. \<not> feasible ! i) ci
       in if 0 < length civ then
            let maxcdom = length civ;
                domination = add_at civ (map (\<lambda>i. maxcdom - i) [0..<maxcdom]) domination
            in if 0 < length cy then add_at cy (replicate (length cy) (maxcdom + 1)) domination
               else domination
          else domination)"

section \<open>MODE: population update and ask/tell (modeoptimizer.cpp)\<close>

text \<open>
  The members of \<^verbatim>\<open>MoDeOptimizer\<close> that the functions below read or write.  The
  constructor makes \<open>popsize\<close> positive and \<open>init\<close> gives \<open>popX\<close>, \<open>popY\<close>, \<open>nX\<close>,
  \<open>nY\<close> and \<open>vdone\<close> \<open>2 * popsize\<close> columns (entries); the columns of \<open>popY\<close> and
  \<open>nY\<close> have \<open>nobj + ncon\<close> rows.
\<close>

record MoDeOptimizer =
  popsize :: nat
  dim :: nat
  nobj :: nat
  ncon :: nat
  maxEvaluations :: int
  n_evals :: int
  stop :: int
  popX :: mat
  popY :: mat
  nX :: mat
  nY :: mat
  vX :: mat
  vp :: nat
  vdone :: "bool list"
  nsga_update :: bool
  pareto_update :: real

text \<open>
  \<^verbatim>\<open>variation\<close> (simulated binary crossover and polynomial mutation) draws from the
  generator and calls members of the \<^verbatim>\<open>Fitness\<close> of \<^verbatim>\<open>evaluator.h\<close>; its only effect on
  the optimizer is its result, which \<^verbatim>\<open>pop_update\<close> stores in \<open>vX\<close>.  It is the parameter
  \<open>variation\<close> of the functions below.
\<close>

type_synonym variator = "mat \<Rightarrow> mat"

text \<open>
  The loop of \<^verbatim>\<open>pop_update\<close> over the crowding order \<open>si\<close> of a level that does not fit:
  it stops as soon as \<open>popsize\<close> columns are collected.
\<close>

fun admit_crowd :: "nat \<Rightarrow> mat \<Rightarrow> mat \<Rightarrow> nat list \<Rightarrow> mat \<times> mat \<Rightarrow> mat \<times> mat" where
  "admit_crowd N domx domy [] (x, y) = (x, y)"
| "admit_crowd N domx domy (i # is) (x, y) =
    (if N \<le> length x then (x, y)
     else admit_crowd N domx domy is (x @ [domx ! i], y @ [domy ! i]))"

text \<open>
  \<open>level domination dm\<close> are the columns of score \<open>dm\<close>, in index order (the vector
  \<^verbatim>\<open>level\<close>, then \<^verbatim>\<open>domlevel\<close>, of the source).
  The loop \<^verbatim>\<open>for (int dom = maxdom; dom >= 0; dom--)\<close> of \<^verbatim>\<open>pop_update\<close>, from \<open>dm\<close>
  downwards, with the survivors \<open>(x, y)\<close> collected so far.  In the branch of a level
  that does not fit, the vector \<^verbatim>\<open>si\<close> holding the single index 0 is shadowed and never
  read: a level of one column adds nothing.
\<close>

definition level :: "nat list \<Rightarrow> nat \<Rightarrow> nat list" where
  "level domination dm = filter (\<lambda>i. domination ! i = dm) [0..<length domination]"

fun levels_loop ::
  "sorter \<Rightarrow> nat \<Rightarrow> mat \<Rightarrow> mat \<Rightarrow> nat list \<Rightarrow> nat \<Rightarrow> mat \<times> mat \<Rightarrow> (mat \<times> mat) option" where
  "levels_loop si N x0 y0 domination dm (x, y) =
    (let domlevel = level domination dm;
         domx = map ((!) x0) domlevel;
         domy = map ((!) y0) domlevel
     in if length x + length domlevel \<le> N then
          (case dm of
             0 \<Rightarrow> Some (x @ domx, y @ domy)
           | Suc dm' \<Rightarrow> levels_loop si N x0 y0 domination dm' (x @ domx, y @ domy))
        else if 1 < length domy then
          (case crowd_dist si domy of
             None \<Rightarrow> None
           | Some cd \<Rightarrow> Some (admit_crowd N domx domy (rev (sort_index_cd si cd)) (x, y)))
        else Some (x, y))"

declare levels_loop.simps [simp del]

text \<open>
  \<^verbatim>\<open>pop_update\<close>.  \<open>presort\<close> is its head: the copies \<^verbatim>\<open>x0\<close>, \<^verbatim>\<open>y0\<close>, sorted by
  descending fitness when there is one objective.  Reading \<^verbatim>\<open>x[i]\<close> for the write-back
  needs \<open>popsize\<close> survivors; with fewer the source reads past the end of the vector
  (\<open>None\<close>).
\<close>

definition presort :: "sorter \<Rightarrow> MoDeOptimizer \<Rightarrow> mat \<times> mat" where
  "presort si st =
    (if nobj st = 1 then
       let yi = rev (si (row (popY st) 0))
       in (map ((!) (popX st)) yi, map ((!) (popY st)) yi)
     else (popX st, popY st))"

definition pop_update :: "sorter \<Rightarrow> variator \<Rightarrow> MoDeOptimizer \<Rightarrow> MoDeOptimizer option" where
  "pop_update si variation st =
    (let (x0, y0) = presort si st;
         domination = pareto si (nobj st) (ncon st) y0;
         maxdom = Max (set domination)
     in case levels_loop si (popsize st) x0 y0 domination maxdom ([], []) of
          None \<Rightarrow> None
        | Some (x, y) \<Rightarrow>
            if length x < popsize st \<or> length y < popsize st then None
            else
              let st = st\<lparr>popX := take (popsize st) x @ drop (popsize st) (popX st),
                          popY := take (popsize st) y @ drop (popsize st) (popY st)\<rparr>
              in Some (if nsga_update st
                       then st\<lparr>vX := variation (take (popsize st) (popX st))\<rparr>
                       else st))"

text \<open>\<^verbatim>\<open>is_dominated(const vec &y, int p)\<close>: no component of \<open>y\<close> is strictly smaller
  than the one of the fitness column of slot \<open>p\<close>.\<close>

definition is_dominated :: "MoDeOptimizer \<Rightarrow> vec \<Rightarrow> nat \<Rightarrow> bool" where
  "is_dominated st y p = list_all (\<lambda>j. \<not> y ! j < popY st ! p ! j) [0..<length y]"

text \<open>
  \<^verbatim>\<open>tell\<close>.  \<open>first_free\<close> is the search for the first pending slot that is not ready;
  it returns \<open>length vdone\<close> when all are ready, and the writes at that index would be
  past the end (\<open>None\<close>).  \<open>flush\<close> is the loop that moves the ready slots to the
  columns from \<open>p\<close> on; a write at a column past the last one has no result (\<open>None\<close>).
\<close>

fun first_free :: "bool list \<Rightarrow> nat" where
  "first_free [] = 0"
| "first_free (b # bs) = (if \<not> b then 0 else Suc (first_free bs))"

fun flush :: "nat list \<Rightarrow> nat \<Rightarrow> MoDeOptimizer \<Rightarrow> MoDeOptimizer option" where
  "flush [] p st = Some st"
| "flush (dp # dps) p st =
    (if vdone st ! dp then
       if length (popX st) \<le> p \<or> length (popY st) \<le> p then None
       else
         let st = st\<lparr>popX := (popX st)[p := nX st ! dp],
                     popY := (popY st)[p := nY st ! dp],
                     vdone := (vdone st)[dp := False]\<rparr>
         in if length (popY st) \<le> p then Some st else flush dps (p + 1) st
     else flush dps p st)"

definition tell ::
  "sorter \<Rightarrow> variator \<Rightarrow> vec \<Rightarrow> vec \<Rightarrow> nat \<Rightarrow> MoDeOptimizer \<Rightarrow> (int \<times> MoDeOptimizer) option" where
  "tell si variation y x p st =
    (if is_dominated st y p then Some (stop st, st)
     else
       let dp = first_free (vdone st)
       in if length (vdone st) \<le> dp then None
          else
            let st = st\<lparr>nX := (nX st)[dp := x], nY := (nY st)[dp := y],
                        vdone := (vdone st)[dp := True]\<rparr>;
                ndone = length (filter (\<lambda>b. b) (vdone st))
            in if popsize st \<le> ndone then
                 (case flush [0..<length (vdone st)] (popsize st) st of
                    None \<Rightarrow> None
                  | Some st \<Rightarrow>
                      (case pop_update si variation st of
                         None \<Rightarrow> None
                       | Some st \<Rightarrow> Some (stop st, st\<lparr>n_evals := n_evals st + 1\<rparr>)))
               else Some (stop st, st\<lparr>n_evals := n_evals st + 1\<rparr>))"

text \<open>
  \<^verbatim>\<open>tellAll\<close>.  The assignment \<^verbatim>\<open>popY.col(popsize + p) = ys.col(p)\<close> needs a column of
  as many rows as \<open>popY\<close> has, \<open>nobj + ncon\<close>, and a target column that exists; Eigen
  asserts the first and nothing is defined without either (\<open>None\<close>).
\<close>

fun tellAll_cols :: "mat \<Rightarrow> nat list \<Rightarrow> MoDeOptimizer \<Rightarrow> MoDeOptimizer option" where
  "tellAll_cols ys [] st = Some st"
| "tellAll_cols ys (p # ps) st =
    (if length ys \<le> p \<or> length (popY st) \<le> popsize st + p
        \<or> length (ys ! p) \<noteq> nobj st + ncon st then None
     else tellAll_cols ys ps (st\<lparr>popY := (popY st)[popsize st + p := ys ! p]\<rparr>))"

definition tellAll :: "sorter \<Rightarrow> variator \<Rightarrow> mat \<Rightarrow> MoDeOptimizer \<Rightarrow> (int \<times> MoDeOptimizer) option" where
  "tellAll si variation ys st =
    (case tellAll_cols ys [0..<popsize st] st of
       None \<Rightarrow> None
     | Some st \<Rightarrow>
         (case pop_update si variation st of
            None \<Rightarrow> None
          | Some st \<Rightarrow> Some (stop st, st)))"

definition getPopulation :: "MoDeOptimizer \<Rightarrow> mat" where
  "getPopulation st = take (popsize st) (popX st)"

definition getStop :: "MoDeOptimizer \<Rightarrow> int" where
  "getStop st = stop st"

section \<open>MODE: trial vectors (modeoptimizer.cpp)\<close>

text \<open>
  Modelled from the spec: the class \<^verbatim>\<open>Fitness\<close> of \<^verbatim>\<open>evaluator.h\<close>, which is not among
  the sources.  The optimizer uses its evaluation counter, its terminate flag,
  \<^verbatim>\<open>getClosestFeasible\<close>, \<^verbatim>\<open>sample_i\<close> and \<^verbatim>\<open>eval\<close>.  By the spec \<^verbatim>\<open>eval\<close> returns the
  objective tuple with every non-finite entry replaced by \<open>1e99\<close> and increments the
  evaluation counter, and nothing else changes the counter.  \<^verbatim>\<open>getClosestFeasible\<close>
  (clamping into the bounds) and \<^verbatim>\<open>sample_i\<close> (a draw for one coordinate, which takes
  draws from the generator it is given) are the fields \<open>closest_feasible\<close> and
  \<open>sample_i\<close>.
\<close>

record ModeFitness =
  evaluations :: int
  terminate :: bool
  closest_feasible :: "vec \<Rightarrow> vec"
  sample_i :: "nat \<Rightarrow> real list \<Rightarrow> (real \<times> real list) option"

type_synonym mode_objective = "vec \<Rightarrow> double list"

definition mode_eval :: "mode_objective \<Rightarrow> vec \<Rightarrow> ModeFitness \<Rightarrow> vec \<times> ModeFitness" where
  "mode_eval obj x fit =
    (map (\<lambda>r. if isnan r \<or> \<not> isfinite r then 10 ^ 99 else (case r of Fin v \<Rightarrow> v | _ \<Rightarrow> 0))
       (obj x),
     fit\<lparr>evaluations := evaluations fit + 1\<rparr>)"

text \<open>
  The members of \<^verbatim>\<open>MoDeOptimizer\<close> that only \<^verbatim>\<open>nextX\<close>, \<^verbatim>\<open>modify\<close> and \<^verbatim>\<open>ask\<close> read or
  write, kept in a record of their own; the prefix \<open>mo_\<close> keeps them apart from the
  members of \<^verbatim>\<open>LDeOptimizer\<close> of the same name.  \<open>mo_rs\<close> are the draws the generator
  \<^verbatim>\<open>*rs\<close> is still going to deliver and \<open>mo_log\<close> is the log callback, applied to
  \<^verbatim>\<open>popX\<close> and \<^verbatim>\<open>popY\<close>.  The constructor makes \<open>mo_log_period\<close> positive.  A state of the
  optimizer is a triple of a \<open>MoDeOptimizer\<close>, a \<open>MoDeAsk\<close> and the \<open>ModeFitness\<close> that
  \<^verbatim>\<open>fitfun\<close> points to.
\<close>

record MoDeAsk =
  mo_iterations :: int
  mo_log_period :: int
  mo_log :: "mat \<Rightarrow> mat \<Rightarrow> bool"
  mo_F0 :: real
  mo_CR0 :: real
  mo_F :: real
  mo_CR :: real
  mo_rs :: "real list"
  mo_min_mutate :: real
  mo_max_mutate :: real
  mo_isInt :: "bool list option"
  mo_pos :: nat

type_synonym mode_state = "MoDeOptimizer \<times> MoDeAsk \<times> ModeFitness"

text \<open>
  Modelled from the spec: \<^verbatim>\<open>rand01\<close> and \<^verbatim>\<open>randInt\<close> of \<^verbatim>\<open>evaluator.h\<close>, a uniform draw
  from \<open>[0, 1)\<close> and a uniform index below \<open>mx\<close>, on the generator model of LDE.
\<close>

definition mo_rand01 :: "MoDeAsk \<Rightarrow> (real \<times> MoDeAsk) option" where
  "mo_rand01 a =
    (case mo_rs a of
       [] \<Rightarrow> None
     | u # r \<Rightarrow> if 0 \<le> u \<and> u < 1 then Some (u, a\<lparr>mo_rs := r\<rparr>) else None)"

definition mo_randInt :: "nat \<Rightarrow> MoDeAsk \<Rightarrow> (nat \<times> MoDeAsk) option" where
  "mo_randInt mx a =
    (case mo_rand01 a of None \<Rightarrow> None | Some (u, a) \<Rightarrow> Some (nat (to_int (real mx * u)), a))"

text \<open>
  \<^verbatim>\<open>MoDeOptimizer::modify\<close>; \<open>mo_modify_loop\<close> is its second loop.
\<close>

fun mo_modify_loop ::
  "bool list \<Rightarrow> real \<Rightarrow> nat list \<Rightarrow> vec \<Rightarrow> ModeFitness \<Rightarrow> MoDeAsk \<Rightarrow> (vec \<times> MoDeAsk) option" where
  "mo_modify_loop ints limit [] x fit a = Some (x, a)"
| "mo_modify_loop ints limit (i # is) x fit a =
    (if ints ! i then
       (case mo_rand01 a of
          None \<Rightarrow> None
        | Some (u, a) \<Rightarrow>
            if u < limit then
              (case sample_i fit i (mo_rs a) of
                 None \<Rightarrow> None
               | Some (v, r) \<Rightarrow>
                   mo_modify_loop ints limit is (x[i := real_of_int (to_int v)]) fit
                     (a\<lparr>mo_rs := r\<rparr>))
            else mo_modify_loop ints limit is x fit a)
     else mo_modify_loop ints limit is x fit a)"

definition mo_modify :: "nat \<Rightarrow> vec \<Rightarrow> ModeFitness \<Rightarrow> MoDeAsk \<Rightarrow> (vec \<times> MoDeAsk) option" where
  "mo_modify dm x fit a =
    (case mo_isInt a of
       None \<Rightarrow> Some (x, a)
     | Some ints \<Rightarrow>
         let n_ints = real (length (filter (\<lambda>i. ints ! i) [0..<dm])) in
         (case mo_rand01 a of
            None \<Rightarrow> None
          | Some (u, a) \<Rightarrow>
              let to_mutate = mo_min_mutate a + u * (mo_max_mutate a - mo_min_mutate a)
              in mo_modify_loop ints (to_mutate / n_ints) [0..<dm] x fit a))"

text \<open>
  \<^verbatim>\<open>nextX\<close>.  \<open>log_step\<close> is its head, which counts the iterations and calls the log
  callback.  \<open>pick3\<close> is the loop \<^verbatim>\<open>do { ... } while (...)\<close> that draws \<^verbatim>\<open>r1\<close>, \<^verbatim>\<open>r2\<close>
  and \<^verbatim>\<open>r3\<close>; each round takes draws, so it ends when the draws are used up.
  \<open>mo_cross\<close> is the loop over the coordinates \<open>j\<close>, and \<open>de_trial\<close> the part of
  \<^verbatim>\<open>nextX\<close> that builds a trial vector by differential evolution.
\<close>

definition log_step :: "nat \<Rightarrow> mode_state \<Rightarrow> MoDeAsk \<times> ModeFitness" where
  "log_step p s =
    (let (opt, a, fit) = s in
     if p = 0 then
       let a = a\<lparr>mo_iterations := mo_iterations a + 1\<rparr>
       in if mo_iterations a mod mo_log_period a = 0 \<and> mo_log a (popX opt) (popY opt)
          then (a, fit\<lparr>terminate := True\<rparr>)
          else (a, fit)
     else (a, fit))"

function pick3 :: "nat \<Rightarrow> MoDeOptimizer \<Rightarrow> MoDeAsk \<Rightarrow> ((nat \<times> nat \<times> nat) \<times> MoDeAsk) option" where
  "pick3 p opt a =
    (case mo_randInt (popsize opt) a of
       None \<Rightarrow> None
     | Some (r1, a1) \<Rightarrow>
         (case mo_randInt (popsize opt) a1 of
            None \<Rightarrow> None
          | Some (r2, a2) \<Rightarrow>
              (case (if 0 < pareto_update opt then
                       (case mo_rand01 a2 of
                          None \<Rightarrow> None
                        | Some (u, a3) \<Rightarrow>
                            Some (nat (to_int (u powr (1 + pareto_update opt)
                                               * real (popsize opt))), a3))
                     else mo_randInt (popsize opt) a2) of
                 None \<Rightarrow> None
               | Some (r3, a3) \<Rightarrow>
                   if r3 = p \<or> r3 = r1 \<or> r3 = r2 \<or> r2 = p \<or> r2 = r1 \<or> r1 = p
                   then pick3 p opt a3
                   else Some ((r1, r2, r3), a3))))"
  by pat_completeness auto
termination
  by (relation "measure (\<lambda>(p, opt, a). length (mo_rs a))")
    (auto simp: mo_randInt_def mo_rand01_def split: list.splits if_splits option.splits)

declare pick3.simps [simp del]

fun mo_cross :: "nat \<Rightarrow> vec \<Rightarrow> nat list \<Rightarrow> vec \<Rightarrow> MoDeAsk \<Rightarrow> (vec \<times> MoDeAsk) option" where
  "mo_cross r xp [] x a = Some (x, a)"
| "mo_cross r xp (j # js) x a =
    (if j \<noteq> r then
       (case mo_rand01 a of
          None \<Rightarrow> None
        | Some (u, a) \<Rightarrow>
            if mo_CR a < u then mo_cross r xp js (x[j := xp ! j]) a
            else mo_cross r xp js x a)
     else mo_cross r xp js x a)"

definition de_trial ::
  "nat \<Rightarrow> MoDeOptimizer \<Rightarrow> MoDeAsk \<Rightarrow> ModeFitness \<Rightarrow> (vec \<times> MoDeAsk) option" where
  "de_trial p opt a fit =
    (let a = (if p = 0
              then a\<lparr>mo_CR := (if mo_iterations a mod 2 = 0 then 0.5 * mo_CR0 a else mo_CR0 a),
                     mo_F := (if mo_iterations a mod 2 = 0 then 0.5 * mo_F0 a else mo_F0 a)\<rparr>
              else a);
         xp = popX opt ! p
     in case pick3 p opt a of
          None \<Rightarrow> None
        | Some ((r1, r2, r3), a) \<Rightarrow>
            let x1 = popX opt ! r1;
                x2 = popX opt ! r2;
                x3 = popX opt ! r3;
                x = map (\<lambda>j. x3 ! j + (x1 ! j - x2 ! j) * mo_F a) [0..<dim opt]
            in (case mo_randInt (dim opt) a of
                  None \<Rightarrow> None
                | Some (r, a) \<Rightarrow>
                    (case mo_cross r xp [0..<dim opt] x a of
                       None \<Rightarrow> None
                     | Some (x, a) \<Rightarrow> mo_modify (dim opt) (closest_feasible fit x) fit a)))"

definition nextX :: "nat \<Rightarrow> mode_state \<Rightarrow> (vec \<times> mode_state) option" where
  "nextX p s =
    (let (a, fit) = log_step p s;
         opt = fst s
     in if nsga_update opt then
          Some (vX opt ! vp opt, opt\<lparr>vp := (vp opt + 1) mod popsize opt\<rparr>, a, fit)
        else
          (case de_trial p opt a fit of
             None \<Rightarrow> None
           | Some (x, a) \<Rightarrow> Some (x, opt, a, fit)))"

text \<open>\<^verbatim>\<open>ask\<close>: the trial vector together with the slot it belongs to.\<close>

definition ask :: "mode_state \<Rightarrow> ((vec \<times> nat) \<times> mode_state) option" where
  "ask s =
    (let p = mo_pos (fst (snd s))
     in case nextX p s of
          None \<Rightarrow> None
        | Some (x, opt, a, fit) \<Rightarrow>
            Some ((x, p), opt, a\<lparr>mo_pos := (mo_pos a + 1) mod popsize opt\<rparr>, fit))"

section \<open>MODE: the serial driver (modeoptimizer.cpp)\<close>

text \<open>The loop over the slots \<open>p\<close> of \<^verbatim>\<open>doOptimize\<close>; \<open>obj\<close> is the user's objective.\<close>

fun mode_slots :: "mode_objective \<Rightarrow> nat list \<Rightarrow> mode_state \<Rightarrow> mode_state option" where
  "mode_slots obj [] s = Some s"
| "mode_slots obj (p # ps) s =
    (case nextX p s of
       None \<Rightarrow> None
     | Some (x, opt, a, fit) \<Rightarrow>
         let opt = opt\<lparr>popX := (popX opt)[popsize opt + p := x]\<rparr>;
             (y, fit) = mode_eval obj x fit;
             opt = opt\<lparr>popY := (popY opt)[popsize opt + p := y]\<rparr>
         in mode_slots obj ps (opt, a, fit))"

text \<open>
  \<^verbatim>\<open>MoDeOptimizer::doOptimize\<close>.  As for LDE, \<open>fuel\<close> bounds the number of rounds of
  the \<^verbatim>\<open>while\<close> loop.
\<close>

fun mode_doOptimize_loop ::
  "sorter \<Rightarrow> variator \<Rightarrow> mode_objective \<Rightarrow> nat \<Rightarrow> mode_state \<Rightarrow> mode_state option" where
  "mode_doOptimize_loop si variation obj 0 s = None"
| "mode_doOptimize_loop si variation obj (Suc fuel) (opt, a, fit) =
    (if evaluations fit < maxEvaluations opt \<and> \<not> terminate fit then
       (case mode_slots obj [0..<popsize opt] (opt, a, fit) of
          None \<Rightarrow> None
        | Some (opt, a, fit) \<Rightarrow>
            (case pop_update si variation opt of
               None \<Rightarrow> None
             | Some opt \<Rightarrow> mode_doOptimize_loop si variation obj fuel (opt, a, fit)))
     else Some (opt, a, fit))"

definition mode_doOptimize ::
  "sorter \<Rightarrow> variator \<Rightarrow> mode_objective \<Rightarrow> nat \<Rightarrow> mode_state \<Rightarrow> mode_state option" where
  "mode_doOptimize si variation obj fuel s =
    (let (opt, a, fit) = s
     in mode_doOptimize_loop si variation obj fuel
          (opt, a\<lparr>mo_iterations := 0\<rparr>, fit\<lparr>evaluations := 0\<rparr>))"

section \<open>MODE: the parallel driver (modeoptimizer.cpp)\<close>

text \<open>
  Modelled from the spec: the class \<^verbatim>\<open>evaluator\<close> of \<^verbatim>\<open>evaluator.h\<close>, which is not among
  the sources.  By the spec \<^verbatim>\<open>evaluate(x, id)\<close> enqueues a job, a pool of workers
  evaluates the jobs concurrently (each evaluation increments the shared counter
  atomically), \<^verbatim>\<open>result()\<close> blocks until a result is there and returns the next completed
  one, and results complete in any order.  \<open>p_jobs\<close> are the jobs enqueued and not
  yet evaluated, \<open>p_results\<close> the completed results not yet fetched, oldest first.
\<close>

text \<open>
  The places of the driver thread in \<^verbatim>\<open>do_optimize_delayed_update\<close>: \<open>Fill i\<close> before
  round \<open>i\<close> of the loop that fills the queue, \<open>Head\<close> at the test of the \<^verbatim>\<open>while\<close>
  loop, \<open>Fetch\<close> before \<^verbatim>\<open>eval.result()\<close>, \<open>Told\<close> after \<^verbatim>\<open>tell\<close> and before the second
  test of the budget, \<open>Finished\<close> after the loop.
\<close>

datatype place = Fill nat | Head | Fetch | Told | Finished

record par_state =
  p_mode :: mode_state
  p_place :: place
  p_workers :: nat
  p_evals_x :: "vec list"
  p_jobs :: "(vec \<times> nat) list"
  p_results :: "(vec \<times> nat) list"

text \<open>
  The start of \<^verbatim>\<open>do_optimize_delayed_update(workers)\<close>: the counters are reset and
  \<^verbatim>\<open>workers\<close> becomes \<^verbatim>\<open>std::min(workers, popsize)\<close>.  The array \<^verbatim>\<open>evals_x\<close> starts
  uninitialised in the source and with empty vectors here; a slot is written before it is
  read.
\<close>

definition par_init :: "nat \<Rightarrow> mode_state \<Rightarrow> par_state" where
  "par_init workers s =
    (let (opt, a, fit) = s
     in \<lparr>p_mode = (opt, a\<lparr>mo_iterations := 0\<rparr>, fit\<lparr>evaluations := 0\<rparr>),
         p_place = Fill 0,
         p_workers = min workers (popsize opt),
         p_evals_x = replicate (popsize opt) [],
         p_jobs = [],
         p_results = []\<rparr>)"

text \<open>
  \<open>dispatch\<close> is \<^verbatim>\<open>x = ask(p); eval.evaluate(x, p); evals_x[p] = x\<close>.
\<close>

definition dispatch :: "place \<Rightarrow> par_state \<Rightarrow> par_state option" where
  "dispatch next ps =
    (case ask (p_mode ps) of
       None \<Rightarrow> None
     | Some ((x, p), s) \<Rightarrow>
         Some (ps\<lparr>p_mode := s, p_place := next, p_jobs := p_jobs ps @ [(x, p)],
                  p_evals_x := (p_evals_x ps)[p := x]\<rparr>))"

text \<open>
  One step of the driver thread, from its place to the next.  At \<open>Fetch\<close> with no
  result completed the driver is blocked and has no step (\<open>None\<close>), and so it is when
  it has finished.
\<close>

definition driver_step :: "sorter \<Rightarrow> variator \<Rightarrow> par_state \<Rightarrow> par_state option" where
  "driver_step si variation ps =
    (let (opt, a, fit) = p_mode ps
     in case p_place ps of
          Fill i \<Rightarrow>
            if i < p_workers ps then dispatch (Fill (i + 1)) ps
            else Some (ps\<lparr>p_place := Head\<rparr>)
        | Head \<Rightarrow>
            if evaluations fit < maxEvaluations opt \<and> \<not> terminate fit
            then Some (ps\<lparr>p_place := Fetch\<rparr>)
            else Some (ps\<lparr>p_place := Finished\<rparr>)
        | Fetch \<Rightarrow>
            (case p_results ps of
               [] \<Rightarrow> None
             | (y, p) # rest \<Rightarrow>
                 (case tell si variation y (p_evals_x ps ! p) p opt of
                    None \<Rightarrow> None
                  | Some (stop', opt) \<Rightarrow>
                      Some (ps\<lparr>p_mode := (opt, a, fit), p_place := Told, p_results := rest\<rparr>)))
        | Told \<Rightarrow>
            if maxEvaluations opt \<le> evaluations fit then Some (ps\<lparr>p_place := Finished\<rparr>)
            else dispatch Head ps
        | Finished \<Rightarrow> None)"

text \<open>
  One step of the pool: the job at position \<open>j\<close> of the queue is evaluated and its result
  is completed.  Which job completes next is not determined.
\<close>

definition worker_step :: "mode_objective \<Rightarrow> nat \<Rightarrow> par_state \<Rightarrow> par_state option" where
  "worker_step obj j ps =
    (if length (p_jobs ps) \<le> j then None
     else
       let (opt, a, fit) = p_mode ps;
           (x, p) = p_jobs ps ! j;
           (y, fit) = mode_eval obj x fit
       in Some (ps\<lparr>p_mode := (opt, a, fit),
                   p_jobs := take j (p_jobs ps) @ drop (Suc j) (p_jobs ps),
                   p_results := p_results ps @ [(y, p)]\<rparr>))"

text \<open>
  A run of \<^verbatim>\<open>do_optimize_delayed_update\<close> under a schedule: the list of the threads that
  take the next step, \<open>Driver\<close> or the worker that completes job \<open>j\<close> of the queue.  A
  schedule that asks for a step a thread does not have is not a schedule of the program
  (\<open>None\<close>).
\<close>

datatype thread = Driver | Worker nat

fun par_run ::
  "sorter \<Rightarrow> variator \<Rightarrow> mode_objective \<Rightarrow> thread list \<Rightarrow> par_state \<Rightarrow> par_state option" where
  "par_run si variation obj [] ps = Some ps"
| "par_run si variation obj (Driver # sched) ps =
    (case driver_step si variation ps of
       None \<Rightarrow> None
     | Some ps \<Rightarrow> par_run si variation obj sched ps)"
| "par_run si variation obj (Worker j # sched) ps =
    (case worker_step obj j ps of
       None \<Rightarrow> None
     | Some ps \<Rightarrow> par_run si variation obj sched ps)"

definition do_optimize_delayed_update ::
  "sorter \<Rightarrow> variator \<Rightarrow> mode_objective \<Rightarrow> thread list \<Rightarrow> nat \<Rightarrow> mode_state
    \<Rightarrow> par_state option" where
  "do_optimize_delayed_update si variation obj sched workers s =
    par_run si variation obj sched (par_init workers s)"

section \<open>MODE: the C entry points (modeoptimizer.cpp)\<close>

text \<open>
  \<^verbatim>\<open>tellMODE_C\<close>: \<open>ys\<close> is the caller's buffer.  \<open>tellMODE_C_vals\<close> is the matrix
  \<^verbatim>\<open>vals\<close> the two loops build from it.
\<close>

definition tellMODE_C_vals :: "MoDeOptimizer \<Rightarrow> real list \<Rightarrow> mat" where
  "tellMODE_C_vals opt ys =
    map (\<lambda>p. map (\<lambda>i. ys ! (p * nobj opt + i)) [0..<nobj opt]) [0..<popsize opt]"

definition tellMODE_C ::
  "sorter \<Rightarrow> variator \<Rightarrow> MoDeOptimizer \<Rightarrow> real list \<Rightarrow> (int \<times> MoDeOptimizer) option" where
  "tellMODE_C si variation opt ys = tellAll si variation (tellMODE_C_vals opt ys) opt"

text \<open>
  \<^verbatim>\<open>populationMODE_C\<close>: \<open>xs\<close> is the caller's buffer, returned as the call leaves it
  together with the \<^verbatim>\<open>int\<close> result.  \<open>population_locals\<close> are the local vectors
  \<^verbatim>\<open>x\<close> of the rounds of the outer loop, each a copy of a population column overwritten
  from \<open>xs\<close>; they go out of scope unread.
\<close>

definition population_locals :: "MoDeOptimizer \<Rightarrow> real list \<Rightarrow> vec list" where
  "population_locals opt xs =
    (let popX = getPopulation opt
     in map (\<lambda>p. fold (\<lambda>i x. x[i := xs ! (p * dim opt + i)]) [0..<dim opt] (popX ! p))
          [0..<popsize opt])"

definition populationMODE_C :: "MoDeOptimizer \<Rightarrow> real list \<Rightarrow> real list \<times> int" where
  "populationMODE_C opt xs = (let locals = population_locals opt xs in (xs, getStop opt))"

section \<open>MODE: vocabulary of the statements and example states\<close>

text \<open>\<open>ready bs\<close> are the pending slots marked ready in \<open>bs\<close>, in index order.\<close>

definition ready :: "bool list \<Rightarrow> nat list" where
  "ready bs = filter (\<lambda>i. bs ! i) [0..<length bs]"

text \<open>
  Two optimizers with two slots, as \<^verbatim>\<open>initMODE_C\<close> followed by some rounds leaves them:
  \<open>mode_example\<close> with one objective and one constraint, \<open>tell_example\<close> with two
  objectives and one result pending.
\<close>

definition mode_example :: MoDeOptimizer where
  "mode_example = \<lparr>popsize = 2, dim = 1, nobj = 1, ncon = 1,
     maxEvaluations = 100, n_evals = 0, stop = 0,
     popX = [[10], [20], [30], [40]], popY = [[1, 0], [3, 1], [6, 2], [7, 7]],
     nX = [[0], [0], [0], [0]], nY = [[0, 0], [0, 0], [0, 0], [0, 0]],
     vX = [], vp = 0, vdone = [False, False, False, False],
     nsga_update = False, pareto_update = 0\<rparr>"

definition tell_example :: MoDeOptimizer where
  "tell_example = \<lparr>popsize = 2, dim = 1, nobj = 2, ncon = 0,
     maxEvaluations = 100, n_evals = 0, stop = 0,
     popX = [[10], [20], [30], [40]], popY = [[1, 3], [5, 5], [6, 2], [7, 7]],
     nX = [[50], [0], [0], [0]], nY = [[5, 9], [8, 8], [8, 8], [8, 8]],
     vX = [], vp = 0, vdone = [True, False, False, False],
     nsga_update = False, pareto_update = 0\<rparr>"

text \<open>
  \<open>levels_from domination hi lo\<close> lists the columns of the levels \<open>hi, hi - 1, ..., lo\<close>,
  level after level.  \<open>crowd_order si y0 lev\<close> lists the columns of the level \<open>lev\<close> by
  descending crowding distance of the level's submatrix of \<open>y0\<close> (a level of fewer than
  two columns has no crowding distance and keeps its order).
\<close>

definition levels_from :: "nat list \<Rightarrow> nat \<Rightarrow> nat \<Rightarrow> nat list" where
  "levels_from domination hi lo = concat (map (level domination) (rev [lo..<Suc hi]))"

definition crowd_order :: "sorter \<Rightarrow> mat \<Rightarrow> nat list \<Rightarrow> nat list" where
  "crowd_order si y0 lev =
    (case crowd_dist si (map ((!) y0) lev) of
       None \<Rightarrow> lev
     | Some cd \<Rightarrow> map ((!) lev) (rev (sort_index_cd si cd)))"



text \<open>
  The fitness columns of a first generation with three slots, and an optimizer that holds
  them: the columns 0, 1 and 2 still hold \<^verbatim>\<open>DBL_MAX\<close> from \<^verbatim>\<open>init\<close>, the columns 3, 4
  and 5 are evaluated offspring.
\<close>

definition first_generation :: mat where
  "first_generation =
    [[DBL_MAX, DBL_MAX], [DBL_MAX, DBL_MAX], [DBL_MAX, DBL_MAX], [1, 1], [2, 3], [3, 2]]"

definition first_generation_example :: MoDeOptimizer where
  "first_generation_example = \<lparr>popsize = 3, dim = 1, nobj = 2, ncon = 0,
     maxEvaluations = 100, n_evals = 0, stop = 0,
     popX = [[100], [200], [300], [10], [20], [30]], popY = first_generation,
     nX = [[0], [0], [0], [0], [0], [0]],
     nY = [[0, 0], [0, 0], [0, 0], [0, 0], [0, 0], [0, 0]],
     vX = [], vp = 0, vdone = [False, False, False, False, False, False],
     nsga_update = False, pareto_update = 0\<rparr>"

text \<open>
  A state for the drivers with two slots and a budget of three evaluations, in NSGA mode:
  the trial vectors come from \<open>vX\<close>, the log callback never asks to stop, and the
  objectives of \<open>x\<close> are \<open>x\<close> and \<open>1 - x\<close>.  The counter stands at 7 from an earlier
  run.
\<close>

definition serial_example :: MoDeOptimizer where
  "serial_example = \<lparr>popsize = 2, dim = 1, nobj = 2, ncon = 0,
     maxEvaluations = 3, n_evals = 0, stop = 0,
     popX = [[10], [20], [30], [40]], popY = [[1, 3], [3, 1], [6, 2], [7, 7]],
     nX = [[0], [0], [0], [0]], nY = [[0, 0], [0, 0], [0, 0], [0, 0]],
     vX = [[2], [5]], vp = 0, vdone = [False, False, False, False],
     nsga_update = True, pareto_update = 0\<rparr>"

definition ask_example :: MoDeAsk where
  "ask_example = \<lparr>mo_iterations = 0, mo_log_period = 1000, mo_log = (\<lambda>x y. False),
     mo_F0 = 1 / 2, mo_CR0 = 9 / 10, mo_F = 1 / 2, mo_CR = 9 / 10, mo_rs = [],
     mo_min_mutate = 1 / 10, mo_max_mutate = 1 / 2, mo_isInt = None, mo_pos = 0\<rparr>"

definition fit_example :: ModeFitness where
  "fit_example = \<lparr>evaluations = 7, terminate = False, closest_feasible = (\<lambda>x. x),
     sample_i = (\<lambda>i r. None)\<rparr>"

definition serial_objective :: mode_objective where
  "serial_objective x = [Fin (x ! 0), Fin (1 - x ! 0)]"

text \<open>
  A schedule for two workers on that state: the driver fills the queue and the workers
  complete their jobs one at a time, as late as the driver allows.
\<close>

definition late_schedule :: "thread list" where
  "late_schedule =
    [Driver, Driver, Driver, Driver, Worker 0, Driver, Driver,
     Driver, Worker 0, Driver, Driver,
     Driver, Worker 0, Worker 0, Driver, Driver]"

text \<open>
  The invariant of the parallel driver for the budget \<open>M\<close> and \<open>W\<close> workers.  Every
  job dispatched is in the queue or has been evaluated and counted, so \<open>c + j\<close> is
  the number of jobs dispatched; \<open>j + r\<close> is the number of jobs dispatched whose result
  the driver has not fetched.
\<close>

definition par_inv :: "int \<Rightarrow> nat \<Rightarrow> par_state \<Rightarrow> bool" where
  "par_inv M W ps \<longleftrightarrow>
    (let (opt, a, fit) = p_mode ps;
         c = evaluations fit;
         j = length (p_jobs ps);
         r = length (p_results ps)
     in maxEvaluations opt = M \<and> p_workers ps = W \<and> 0 \<le> c
        \<and> c + int j \<le> M + int W - 1
        \<and> (case p_place ps of
              Fill i \<Rightarrow> i \<le> W \<and> c + int j = int i \<and> int r = c
            | Head \<Rightarrow> j + r = W
            | Fetch \<Rightarrow> j + r = W
            | Told \<Rightarrow> j + r + 1 = W
            | Finished \<Rightarrow> True))"

section \<open>Properties of the rounded arithmetic\<close>

subsection \<open>Exponent, unit in the last place and rounding\<close>

lemma pow2_less_iff: "(2::real) powi a < 2 powi b \<longleftrightarrow> a < b"
proof
  assume l: "(2::real) powi a < 2 powi b"
  show "a < b"
  proof (rule ccontr)
    assume "\<not> a < b"
    then have "b \<le> a" by simp
    then have "(2::real) powi b \<le> 2 powi a" by (intro power_int_increasing) simp_all
    with l show False by simp
  qed
next
  assume "a < b"
  then show "(2::real) powi a < 2 powi b" by (intro power_int_strict_increasing) simp_all
qed

lemma pow2_le_iff: "(2::real) powi a \<le> 2 powi b \<longleftrightarrow> a \<le> b"
  using pow2_less_iff [of b a] by (simp add: not_less [symmetric])

lemma pow2_pos: "0 < (2::real) powi a"
  by (simp add: zero_less_power_int)

lemma flog2_bounds:
  assumes "0 < x"
  shows "2 powi flog2 x \<le> x" and "x < 2 powi (flog2 x + 1)"
proof -
  have "2 powi flog2 x \<le> x \<and> x < 2 powi (flog2 x + 1)"
  proof (cases "1 \<le> x")
    case True
    define n where "n = \<lfloor>x\<rfloor>"
    have n: "0 < n" using True by (simp add: n_def)
    have b: "1 \<le> bitlen n" using n by (simp add: bitlen_alt_def)
    from bitlen_bounds [OF n] have lo: "2 ^ nat (bitlen n - 1) \<le> n" and hi: "n < 2 ^ nat (bitlen n)"
      by simp_all
    have "real_of_int (2 ^ nat (bitlen n - 1)) \<le> real_of_int n" using lo by (simp only: of_int_le_iff)
    also have "\<dots> \<le> x" by (simp add: n_def)
    finally have 1: "2 ^ nat (bitlen n - 1) \<le> x" by simp
    have "n + 1 \<le> 2 ^ nat (bitlen n)" using hi by simp
    then have "real_of_int (n + 1) \<le> real_of_int (2 ^ nat (bitlen n))" by (simp only: of_int_le_iff)
    moreover have "x < real_of_int (n + 1)" by (simp add: n_def)
    ultimately have 2: "x < 2 ^ nat (bitlen n)" by simp
    have f: "flog2 x = bitlen n - 1" using True by (simp add: flog2_def n_def)
    show ?thesis using 1 2 b by (simp add: f power_int_def)
  next
    case False
    define y where "y = 1 / x"
    have y: "1 < y" using False assms by (simp add: y_def)
    define m where "m = \<lceil>y\<rceil> - 1"
    have m: "0 < m" using y by (simp add: m_def less_ceiling_iff)
    have b: "1 \<le> bitlen m" using m by (simp add: bitlen_alt_def)
    from bitlen_bounds [OF m] have lo: "2 ^ nat (bitlen m - 1) \<le> m" and hi: "m < 2 ^ nat (bitlen m)"
      by simp_all
    have "real_of_int (2 ^ nat (bitlen m - 1)) \<le> real_of_int m" using lo by (simp only: of_int_le_iff)
    also have "real_of_int m < y" by (simp add: m_def) linarith
    finally have 1: "2 ^ nat (bitlen m - 1) < y" by simp
    have "m + 1 \<le> 2 ^ nat (bitlen m)" using hi by simp
    then have "real_of_int (m + 1) \<le> real_of_int (2 ^ nat (bitlen m))" by (simp only: of_int_le_iff)
    moreover have "y \<le> real_of_int (m + 1)" by (simp add: m_def)
    ultimately have 2: "y \<le> 2 ^ nat (bitlen m)" by simp
    have f: "flog2 x = - bitlen m" using False by (simp add: flog2_def m_def y_def)
    have x: "x = 1 / y" using assms by (simp add: y_def)
    have "(2::real) powi (- bitlen m) = 1 / 2 powi bitlen m" by (rule power_int_minus_divide)
    also have "\<dots> = 1 / 2 ^ nat (bitlen m)" using b by (simp add: power_int_def)
    finally have p1: "(2::real) powi (- bitlen m) = 1 / 2 ^ nat (bitlen m)" .
    have "(2::real) powi (- bitlen m + 1) = 2 powi (- (bitlen m - 1))" by simp
    also have "\<dots> = 1 / 2 powi (bitlen m - 1)" by (rule power_int_minus_divide)
    also have "\<dots> = 1 / 2 ^ nat (bitlen m - 1)" using b by (simp add: power_int_def)
    finally have p2: "(2::real) powi (- bitlen m + 1) = 1 / 2 ^ nat (bitlen m - 1)" .
    have "1 / 2 ^ nat (bitlen m) \<le> 1 / y" using 2 y by (simp add: field_simps)
    then have 3: "1 / 2 ^ nat (bitlen m) \<le> x" by (simp only: x)
    have "1 / y < 1 / 2 ^ nat (bitlen m - 1)" using 1 y by (simp add: field_simps)
    then have 4: "x < 1 / 2 ^ nat (bitlen m - 1)" by (simp only: x)
    from 3 4 show ?thesis by (simp only: f p1 p2 simp_thms)
  qed
  then show "2 powi flog2 x \<le> x" and "x < 2 powi (flog2 x + 1)" by simp_all
qed

lemma flog2_unique:
  assumes "2 powi e \<le> x" and "x < 2 powi (e + 1)"
  shows "flog2 x = e"
proof -
  have x: "0 < x" using assms(1) pow2_pos [of e] by linarith
  note b = flog2_bounds [OF x]
  have "2 powi e < (2::real) powi (flog2 x + 1)" using assms(1) b(2) by simp
  then have 1: "e < flog2 x + 1" by (simp only: pow2_less_iff)
  have "2 powi flog2 x < (2::real) powi (e + 1)" using assms(2) b(1) by simp
  then have 2: "flog2 x < e + 1" by (simp only: pow2_less_iff)
  from 1 2 show ?thesis by simp
qed

lemma round_even_of_int [simp]: "round_even (of_int m) = m"
  by (simp add: round_even_def)

lemma round_even_cases:
  "round_even q = \<lfloor>q\<rfloor> \<and> q - of_int \<lfloor>q\<rfloor> \<le> 1 / 2
   \<or> round_even q = \<lfloor>q\<rfloor> + 1 \<and> 1 / 2 \<le> q - of_int \<lfloor>q\<rfloor>"
  by (simp add: round_even_def Let_def)

lemma round_even_ge: "of_int m \<le> q \<Longrightarrow> m \<le> round_even q"
proof -
  assume "of_int m \<le> q"
  then have "m \<le> \<lfloor>q\<rfloor>" by (simp add: le_floor_iff)
  with round_even_cases [of q] show ?thesis by auto
qed

lemma round_even_le: "q \<le> of_int m \<Longrightarrow> round_even q \<le> m"
proof -
  assume a: "q \<le> of_int m"
  show ?thesis
  proof (cases "q = of_int m")
    case True
    then show ?thesis by simp
  next
    case False
    with a have "q < of_int m" by simp
    then have "\<lfloor>q\<rfloor> < m" by (simp add: floor_less_iff)
    with round_even_cases [of q] show ?thesis by auto
  qed
qed

lemma round_even_near:
  "of_int m - 1 / 2 < q \<Longrightarrow> q < of_int m + 1 / 2 \<Longrightarrow> round_even q = m"
proof -
  assume a: "of_int m - 1 / 2 < q" and b: "q < of_int m + 1 / 2"
  show ?thesis
  proof (cases "of_int m \<le> q")
    case True
    with b have "\<lfloor>q\<rfloor> = m" by (intro floor_unique) simp_all
    with b show ?thesis by (simp add: round_even_def Let_def)
  next
    case False
    with a have "\<lfloor>q\<rfloor> = m - 1" by (intro floor_unique) simp_all
    with a show ?thesis by (simp add: round_even_def Let_def)
  qed
qed

lemma ulp_pos: "0 < ulp x"
  by (simp add: ulp_def pow2_pos)

lemma ulp_ge: "2 powi (- 1074) \<le> ulp x"
  unfolding ulp_def pow2_le_iff by simp


lemma fl_cases:
  "x = 0 \<and> fl x = Fin 0
   \<or> x \<noteq> 0 \<and> (let r = of_int (round_even (x / ulp x)) * ulp x
        in (DBL_MAX < r \<and> fl x = PInf) \<or> (r < - DBL_MAX \<and> fl x = NInf)
           \<or> (- DBL_MAX \<le> r \<and> r \<le> DBL_MAX \<and> fl x = Fin r))"
  by (auto simp: fl_def Let_def)

lemma DBL_MAX_pos: "0 < DBL_MAX"
  by (simp add: DBL_MAX_def)

lemma fl_nonneg:
  assumes "0 \<le> x"
  shows "fl x = PInf \<or> (\<exists>r. fl x = Fin r \<and> 0 \<le> r)"
proof (cases "x = 0")
  case True
  then show ?thesis by (simp add: fl_def)
next
  case False
  have "0 \<le> x / ulp x" using assms ulp_pos [of x] by simp
  then have "0 \<le> round_even (x / ulp x)" using round_even_ge [of 0 "x / ulp x"] by simp
  then have "0 \<le> real_of_int (round_even (x / ulp x)) * ulp x" using ulp_pos [of x] by simp
  with False DBL_MAX_pos show ?thesis by (auto simp: fl_def Let_def)
qed



lemma flog2_less: "0 < x \<Longrightarrow> x < 2 powi e \<Longrightarrow> flog2 x < e"
  using flog2_bounds(1) [of x] pow2_less_iff [of "flog2 x" e] by linarith

lemma flog2_ge: "2 powi e \<le> x \<Longrightarrow> e \<le> flog2 x"
proof -
  assume a: "2 powi e \<le> x"
  then have x: "0 < x" using pow2_pos [of e] by linarith
  from flog2_bounds(2) [OF x] a have "(2::real) powi e < 2 powi (flog2 x + 1)" by linarith
  then have "e < flog2 x + 1" by (simp only: pow2_less_iff)
  then show ?thesis by simp
qed

lemma pow2_split: "b \<le> a \<Longrightarrow> (2::real) powi a = of_int (2 ^ nat (a - b)) * 2 powi b"
proof -
  assume "b \<le> a"
  have "(2::real) powi a = 2 powi ((a - b) + b)" by simp
  also have "\<dots> = 2 powi (a - b) * 2 powi b" by (rule power_int_add) simp
  also have "(2::real) powi (a - b) = of_int (2 ^ nat (a - b))"
    using \<open>b \<le> a\<close> by (simp add: power_int_def)
  finally show ?thesis .
qed

lemma ulp_grid:
  assumes r: "r = of_int m * 2 powi ue" and ue: "- 1074 \<le> ue" and m: "\<bar>m\<bar> \<le> 2 ^ 53"
  shows "\<exists>k::int. r = of_int k * ulp r"
proof (cases "m = 0")
  case True
  with r show ?thesis by (intro exI [of _ 0]) simp
next
  case False
  then have m1: "1 \<le> \<bar>m\<bar>" by simp
  have ar: "\<bar>r\<bar> = of_int \<bar>m\<bar> * 2 powi ue"
    using pow2_pos [of ue] by (simp add: r abs_mult)
  have lo: "2 powi ue \<le> \<bar>r\<bar>"
  proof -
    have "1 * 2 powi ue \<le> real_of_int \<bar>m\<bar> * 2 powi ue"
      using m1 pow2_pos [of ue] by (intro mult_right_mono) simp_all
    then show ?thesis by (simp add: ar)
  qed
  then have rpos: "0 < \<bar>r\<bar>" using pow2_pos [of ue] by linarith
  define ue' where "ue' = max (flog2 \<bar>r\<bar> - 52) (- 1074)"
  have u: "ulp r = 2 powi ue'" by (simp add: ulp_def ue'_def)
  show ?thesis
  proof (cases "\<bar>m\<bar> < 2 ^ 53")
    case True
    then have "real_of_int \<bar>m\<bar> < real_of_int (2 ^ 53)" by (simp only: of_int_less_iff)
    then have "real_of_int \<bar>m\<bar> * 2 powi ue < 2 ^ 53 * 2 powi ue"
      using pow2_pos [of ue] by simp
    also have "\<dots> = 2 powi 53 * 2 powi ue" by simp
    also have "\<dots> = 2 powi (53 + ue)" by (rule power_int_add [symmetric]) simp
    finally have "\<bar>r\<bar> < 2 powi (53 + ue)" by (simp add: ar)
    from flog2_less [OF rpos this] ue have le: "ue' \<le> ue" by (simp add: ue'_def)
    have "r = of_int (m * 2 ^ nat (ue - ue')) * 2 powi ue'"
      by (simp add: r pow2_split [OF le])
    then show ?thesis unfolding u by blast
  next
    case False
    with m have am: "\<bar>m\<bar> = 2 ^ 53" by simp
    have "\<bar>r\<bar> = 2 ^ 53 * 2 powi ue" by (simp add: ar am)
    also have "\<dots> = 2 powi 53 * 2 powi ue" by simp
    also have "\<dots> = 2 powi (53 + ue)" by (rule power_int_add [symmetric]) simp
    finally have e: "\<bar>r\<bar> = 2 powi (53 + ue)" .
    have "flog2 \<bar>r\<bar> = 53 + ue"
      by (rule flog2_unique) (simp_all add: e pow2_less_iff)
    then have ue': "ue' = ue + 1" using ue by (simp add: ue'_def)
    have "even m" using am by (metis even_abs_add_iff even_add even_numeral even_power zero_less_numeral)
    then obtain h where h: "m = 2 * h" by (auto elim: evenE)
    have "(2::real) powi (ue + 1) = 2 powi ue * 2 powi 1" by (rule power_int_add) simp
    then have "r = of_int h * 2 powi ue'" by (simp add: r h ue')
    then show ?thesis unfolding u by blast
  qed
qed

lemma fl_on_grid:
  assumes "r = of_int k * ulp r" and "- DBL_MAX \<le> r" and "r \<le> DBL_MAX"
  shows "fl r = Fin r"
proof (cases "r = 0")
  case True
  then show ?thesis by (simp add: fl_def)
next
  case False
  have "r / ulp r = of_int k" using assms(1) ulp_pos [of r] by (simp add: field_simps)
  then have "of_int (round_even (r / ulp r)) * ulp r = r" using assms(1) by simp
  with False assms(2,3) show ?thesis by (simp add: fl_def Let_def)
qed

lemma fl_idem:
  assumes "fl x = Fin r"
  shows "fl r = Fin r"
proof (cases "x = 0")
  case True
  with assms have "r = 0" by (simp add: fl_def)
  then show ?thesis by (simp add: fl_def)
next
  case False
  then have ax: "0 < \<bar>x\<bar>" by simp
  define ue where "ue = max (flog2 \<bar>x\<bar> - 52) (- 1074)"
  define m where "m = round_even (x / ulp x)"
  have u: "ulp x = 2 powi ue" by (simp add: ulp_def ue_def)
  from assms False have r: "r = of_int m * ulp x" and range: "- DBL_MAX \<le> r" "r \<le> DBL_MAX"
    by (auto simp: fl_def Let_def m_def split: if_splits)
  have ue: "- 1074 \<le> ue" by (simp add: ue_def)
  have "\<bar>x\<bar> < 2 powi (flog2 \<bar>x\<bar> + 1)" by (rule flog2_bounds(2) [OF ax])
  also have "\<dots> \<le> 2 powi (53 + ue)" unfolding pow2_le_iff by (simp add: ue_def)
  also have "\<dots> = 2 powi 53 * 2 powi ue" by (rule power_int_add) simp
  finally have "\<bar>x\<bar> / ulp x < 2 ^ 53" using ulp_pos [of x] by (simp add: u field_simps)
  moreover have "\<bar>ulp x\<bar> = ulp x" using ulp_pos [of x] by simp
  ultimately have "\<bar>x / ulp x\<bar> < 2 ^ 53" by (simp only: abs_divide)
  then have b: "- (2 ^ 53) < x / ulp x" "x / ulp x < 2 ^ 53" by linarith+
  have "m \<le> 2 ^ 53" unfolding m_def by (rule round_even_le) (use b(2) in simp)
  moreover have "- (2 ^ 53) \<le> m" unfolding m_def by (rule round_even_ge) (use b(1) in simp)
  ultimately have m: "\<bar>m\<bar> \<le> 2 ^ 53" by simp
  from ulp_grid [OF r [unfolded u] ue m] obtain k where "r = of_int k * ulp r" ..
  from fl_on_grid [OF this range] show ?thesis .
qed


lemma is_double_fl: "fl x = Fin r \<Longrightarrow> is_double r"
  unfolding is_double_def by (rule fl_idem)

lemma is_double_0 [simp]: "is_double 0"
  by (simp add: is_double_def fl_def)

subsection \<open>Subtraction, addition and the maximum\<close>


lemma dnonneg_fl: "0 \<le> x \<Longrightarrow> dnonneg (fl x)"
  using fl_nonneg [of x] by auto


lemma dnonneg_dadd: "dnonneg v \<Longrightarrow> dnonneg w \<Longrightarrow> dnonneg (dadd v w)"
  by (cases v; cases w) (simp_all add: dnonneg_fl)





text \<open>
  Next to \<^verbatim>\<open>DBL_MAX\<close> the doubles are \<open>2 ^ 971\<close> apart: subtracting from it, or adding
  to it, less than half of that leaves \<^verbatim>\<open>DBL_MAX\<close>.
\<close>

lemma DBL_MAX_pow: "DBL_MAX = (2 ^ 53 - 1) * 2 powi 971"
  by (simp add: DBL_MAX_def)

lemma fl_at_DBL_MAX:
  assumes "- (2 ^ 970) < t" and "t < 2 ^ 970"
  shows "fl (DBL_MAX + t) = Fin DBL_MAX"
proof -
  define x where "x = DBL_MAX + t"
  define P :: real where "P = 2 powi 971"
  define Q :: real where "Q = 2 ^ 970"
  have P: "P = 2 * Q" by (simp add: P_def Q_def)
  have Q: "0 < Q" by (simp add: Q_def)
  have D: "DBL_MAX = of_int (2 ^ 53 - 1) * P" by (simp add: DBL_MAX_pow P_def)
  have t: "- Q < t" "t < Q" using assms by (simp_all add: Q_def)
  have lo: "2 powi 1023 \<le> x" using assms(1) by (simp add: x_def DBL_MAX_def)
  have hi: "x < 2 powi (1023 + 1)" using assms(2) by (simp add: x_def DBL_MAX_def)
  have x: "0 < x" using lo by simp
  then have ax: "\<bar>x\<bar> = x" by simp
  have "flog2 x = 1023" by (rule flog2_unique [OF lo hi])
  then have u: "ulp x = P" by (simp add: ulp_def ax P_def)
  have "x / P = (of_int (2 ^ 53 - 1) * P + t) / P" by (simp only: x_def D)
  also have "\<dots> = of_int (2 ^ 53 - 1) + t / P" using Q by (simp add: P add_divide_distrib)
  finally have q: "x / ulp x = of_int (2 ^ 53 - 1) + t / P" by (simp only: u)
  have "- (1 / 2) < t / P" "t / P < 1 / 2" using t Q by (simp_all add: P field_simps)
  then have "round_even (x / ulp x) = 2 ^ 53 - 1"
    unfolding q by (intro round_even_near) linarith+
  then have "of_int (round_even (x / ulp x)) * ulp x = DBL_MAX" by (simp only: u D)
  moreover have "x \<noteq> 0" using x by simp
  ultimately show ?thesis unfolding x_def [symmetric] fl_def Let_def
    using DBL_MAX_pos by simp
qed

lemma dsub_DBL_MAX: "0 \<le> b \<Longrightarrow> b < 2 ^ 970 \<Longrightarrow> dsub DBL_MAX b = Fin DBL_MAX"
  using fl_at_DBL_MAX [of "- b"] by (simp add: dsub_def)

lemma dadd_DBL_MAX: "0 \<le> a \<Longrightarrow> a < 2 ^ 970 \<Longrightarrow> dadd (Fin a) (Fin DBL_MAX) = Fin DBL_MAX"
  using fl_at_DBL_MAX [of a] by (simp add: add.commute)

section \<open>LDE: properties of the fitness wrapper\<close>

subsection \<open>Fitness::eval\<close>

text \<open>
  C4.  For every input vector \<open>X\<close> and every state \<open>f\<close> of the wrapper, \<open>eval\<close> calls
  the objective exactly once, on \<open>X\<close> (the call log grows by the single entry \<open>X\<close>),
  returns the objective's value when that is finite and \<open>1e99\<close> when it is a NaN or an
  infinity, so the returned value is always finite, adds exactly one to the evaluation
  counter and changes nothing else.  \<open>eval\<close> has no failing branch: a non-finite
  output is absorbed.
\<close>

theorem eval_coerces_and_counts:
  "fst (eval X f) = (if isfinite (func f (Fitness.dim f) X) then func f (Fitness.dim f) X else Fin (10 ^ 99))
   \<and> isfinite (fst (eval X f))
   \<and> evaluationCounter (snd (eval X f)) = evaluationCounter f + 1
   \<and> calls (snd (eval X f)) = calls f @ [X]
   \<and> snd (eval X f) = f\<lparr>evaluationCounter := evaluationCounter f + 1, calls := calls f @ [X]\<rparr>"
  by (cases "func f (Fitness.dim f) X") (simp_all add: eval_def)

subsection \<open>normX and normXi\<close>

lemma feasible_rs [simp]: "feasible (f\<lparr>rs := r\<rparr>) i x = feasible f i x"
  by (simp add: feasible_def)

lemma normXi_loop_Some:
  "normXi_loop i sdev f = Some (v, f') \<Longrightarrow>
    feasible f i v \<and>
    (\<exists>gs g. rs f = gs @ g # rs f' \<and> f' = f\<lparr>rs := rs f'\<rparr>
       \<and> v = g * sdev + xmean f ! i
       \<and> (\<forall>g'\<in>set gs. \<not> feasible f i (g' * sdev + xmean f ! i)))"
proof (induction i sdev f rule: normXi_loop.induct)
  case (1 i sdev f)
  show ?case
  proof (cases "rs f")
    case Nil
    with "1.prems" show ?thesis
      by (subst (asm) normXi_loop.simps) (simp add: normreal_def gauss_01_def)
  next
    case (Cons g r)
    define f1 where "f1 = f\<lparr>rs := r\<rparr>"
    define nx where "nx = g * sdev + xmean f ! i"
    have nr: "normreal (xmean f ! i) sdev f = Some (nx, f1)"
      using Cons by (simp add: normreal_def gauss_01_def f1_def nx_def)
    show ?thesis
    proof (cases "feasible f i nx")
      case True
      with "1.prems" nr have "v = nx" "f' = f1"
        by (subst (asm) normXi_loop.simps, simp add: f1_def)+
      with True Cons show ?thesis
        by (intro conjI exI [of _ "[]"] exI [of _ g]) (simp_all add: f1_def nx_def)
    next
      case False
      with "1.prems" nr have rec: "normXi_loop i sdev f1 = Some (v, f')"
        by (subst (asm) normXi_loop.simps) (simp add: f1_def)
      have "\<not> feasible f1 i nx" using False by (simp add: f1_def)
      from "1.IH" [OF nr refl this rec]
      obtain gs g2 where ih: "feasible f1 i v" "rs f1 = gs @ g2 # rs f'" "f' = f1\<lparr>rs := rs f'\<rparr>"
        "v = g2 * sdev + xmean f1 ! i"
        "\<forall>g'\<in>set gs. \<not> feasible f1 i (g' * sdev + xmean f1 ! i)"
        by blast
      show ?thesis
      proof (intro conjI exI [of _ "g # gs"] exI [of _ g2])
        show "feasible f i v" using ih(1) by (simp add: f1_def)
        show "rs f = (g # gs) @ g2 # rs f'" using ih(2) Cons by (simp add: f1_def)
        show "f' = f\<lparr>rs := rs f'\<rparr>" using ih(3) by (simp add: f1_def)
        show "v = g2 * sdev + xmean f ! i" using ih(4) by (simp add: f1_def)
        show "\<forall>g'\<in>set (g # gs). \<not> feasible f i (g' * sdev + xmean f ! i)"
          using ih(5) False by (simp add: f1_def nx_def)
      qed
    qed
  qed
qed

lemma normXi_loop_returns:
  "rs f = gs @ g # r \<Longrightarrow> feasible f i (g * sdev + xmean f ! i)
    \<Longrightarrow> \<exists>v f'. normXi_loop i sdev f = Some (v, f')"
proof (induction gs arbitrary: f)
  case Nil
  then show ?case
    by (subst normXi_loop.simps) (simp add: normreal_def gauss_01_def)
next
  case (Cons g0 gs)
  have "\<exists>v f'. normXi_loop i sdev (f\<lparr>rs := gs @ g # r\<rparr>) = Some (v, f')"
    using Cons.prems by (intro Cons.IH) simp_all
  with Cons.prems show ?case
    by (subst normXi_loop.simps) (simp add: normreal_def gauss_01_def)
qed

lemma getClosestFeasible_feasible:
  assumes "lower f = [] \<or> (\<forall>j<n. lower f ! j \<le> upper f ! j)" and "length X = n" and "j < n"
  shows "feasible f j (getClosestFeasible f X ! j)"
  using assms by (auto simp: feasible_def getClosestFeasible_def)

text \<open>
  C8, as the code has it.  Both functions first take a uniform draw \<open>u\<close> and use the
  standard deviations \<open>sigma0\<close> when \<open>u < 0.5\<close> and \<open>sigma\<close> otherwise.
  \<open>normXi\<close> then samples coordinate \<open>i\<close> by rejection: when it returns, its value is
  the first normal draw \<open>g * sdev[i] + xmean[i]\<close> that is feasible, all earlier draws were
  infeasible, and exactly these draws are used up; and it does return when the generator
  delivers a feasible draw.  \<open>normX\<close> takes \<open>dim\<close> normal draws, one per coordinate,
  and clamps the vector into the bounds (\<open>getClosestFeasible\<close>); it never draws again.
  With bounds absent, or present with \<open>lower[j] \<le> upper[j]\<close>, every coordinate of the
  vector \<open>normX\<close> returns is feasible, as is the value \<open>normXi\<close> returns.
\<close>

theorem normX_normXi_spec:
  assumes wf: "lower f = [] \<or> (\<forall>j<Fitness.dim f. lower f ! j \<le> upper f ! j)"
  shows "(\<forall>v f'. normXi f i = Some (v, f') \<longrightarrow>
            feasible f i v \<and>
            (\<exists>u gs g. rs f = u # gs @ g # rs f' \<and> 0 \<le> u \<and> u < 1 \<and> f' = f\<lparr>rs := rs f'\<rparr>
               \<and> v = g * chosen_sigma f u ! i + xmean f ! i
               \<and> (\<forall>g'\<in>set gs. \<not> feasible f i (g' * chosen_sigma f u ! i + xmean f ! i))))
     \<and> (\<forall>u gs g r. rs f = u # gs @ g # r \<and> 0 \<le> u \<and> u < 1
            \<and> feasible f i (g * chosen_sigma f u ! i + xmean f ! i)
            \<longrightarrow> (\<exists>v f'. normXi f i = Some (v, f')))
     \<and> (\<forall>v f'. normX f = Some (v, f') \<longrightarrow>
            (\<exists>u. 0 \<le> u \<and> u < 1 \<and> Fitness.dim f \<le> length (tl (rs f))
               \<and> rs f = u # take (Fitness.dim f) (tl (rs f)) @ rs f' \<and> f' = f\<lparr>rs := rs f'\<rparr>
               \<and> v = getClosestFeasible f
                     (map (\<lambda>j. tl (rs f) ! j * chosen_sigma f u ! j + xmean f ! j)
                        [0..<Fitness.dim f])
               \<and> (\<forall>j<Fitness.dim f. feasible f j (v ! j))))"
proof (intro conjI allI impI)
  fix v f' assume a: "normXi f i = Some (v, f')"
  then obtain u r where rs: "rs f = u # r" and u: "0 \<le> u" "u < 1"
    by (auto simp: normXi_def distr_01_def split: list.splits if_splits)
  define f1 where "f1 = f\<lparr>rs := r\<rparr>"
  have loop: "normXi_loop i (chosen_sigma f u ! i) f1 = Some (v, f')"
    using a rs u by (simp add: normXi_def distr_01_def chosen_sigma_def f1_def split: if_splits)
  from normXi_loop_Some [OF loop]
  obtain gs g where l: "feasible f1 i v" "rs f1 = gs @ g # rs f'" "f' = f1\<lparr>rs := rs f'\<rparr>"
    "v = g * chosen_sigma f u ! i + xmean f1 ! i"
    "\<forall>g'\<in>set gs. \<not> feasible f1 i (g' * chosen_sigma f u ! i + xmean f1 ! i)"
    by blast
  show "feasible f i v" using l(1) by (simp add: f1_def)
  show "\<exists>u gs g. rs f = u # gs @ g # rs f' \<and> 0 \<le> u \<and> u < 1 \<and> f' = f\<lparr>rs := rs f'\<rparr>
               \<and> v = g * chosen_sigma f u ! i + xmean f ! i
               \<and> (\<forall>g'\<in>set gs. \<not> feasible f i (g' * chosen_sigma f u ! i + xmean f ! i))"
    using l rs u by (intro exI [of _ u] exI [of _ gs] exI [of _ g]) (simp add: f1_def)
next
  fix u gs g r
  assume a: "rs f = u # gs @ g # r \<and> 0 \<le> u \<and> u < 1
            \<and> feasible f i (g * chosen_sigma f u ! i + xmean f ! i)"
  define f1 where "f1 = f\<lparr>rs := gs @ g # r\<rparr>"
  have "\<exists>v f'. normXi_loop i (chosen_sigma f u ! i) f1 = Some (v, f')"
    using a by (intro normXi_loop_returns [of _ gs g r]) (simp_all add: f1_def)
  then show "\<exists>v f'. normXi f i = Some (v, f')"
    using a by (auto simp: normXi_def distr_01_def chosen_sigma_def f1_def)
next
  fix v f' assume a: "normX f = Some (v, f')"
  then obtain u r where rs: "rs f = u # r" and u: "0 \<le> u" "u < 1"
    by (auto simp: normX_def distr_01_def split: list.splits if_splits)
  define raw where "raw = map (\<lambda>j. r ! j * chosen_sigma f u ! j + xmean f ! j) [0..<Fitness.dim f]"
  from a rs u have n: "Fitness.dim f \<le> length r"
    and f': "f' = f\<lparr>rs := drop (Fitness.dim f) r\<rparr>"
    and v: "v = getClosestFeasible f raw"
    by (auto simp: normX_def distr_01_def normalVec_def chosen_sigma_def raw_def
          getClosestFeasible_def split: if_splits)
  have feas: "\<forall>j<Fitness.dim f. feasible f j (v ! j)"
    unfolding v using getClosestFeasible_feasible [OF wf, of raw] by (simp add: raw_def)
  show "\<exists>u. 0 \<le> u \<and> u < 1 \<and> Fitness.dim f \<le> length (tl (rs f))
               \<and> rs f = u # take (Fitness.dim f) (tl (rs f)) @ rs f' \<and> f' = f\<lparr>rs := rs f'\<rparr>
               \<and> v = getClosestFeasible f
                     (map (\<lambda>j. tl (rs f) ! j * chosen_sigma f u ! j + xmean f ! j)
                        [0..<Fitness.dim f])
               \<and> (\<forall>j<Fitness.dim f. feasible f j (v ! j))"
    using rs u n f' v feas by (intro exI [of _ u]) (simp add: raw_def)
qed

lemma clamp_example_normXi:
  "normXi clamp_example 0 = Some (1 / 2, clamp_example\<lparr>rs := []\<rparr>)"
  by (simp add: normXi_def distr_01_def normXi_loop.simps normreal_def gauss_01_def feasible_def
      clamp_example_def Fitness_new_def constant_vec_def Let_def)

lemma clamp_example_normX:
  "normX clamp_example = Some ([1], clamp_example\<lparr>rs := [1 / 4]\<rparr>)"
  by (simp add: normX_def distr_01_def normalVec_def getClosestFeasible_def
      clamp_example_def Fitness_new_def constant_vec_def Let_def)

text \<open>
  C8 as stated fails for \<open>normX\<close>: it does not resample.  In \<open>clamp_example\<close> the
  first normal draw gives \<open>5 * 2 + 0 = 10\<close>, outside \<open>[-1, 1]\<close>; the next draw would
  give the feasible \<open>1/2\<close>, which is what \<open>normXi\<close> returns on the same draws.
  \<open>normX\<close> returns the bound \<open>1\<close> and leaves the second normal draw unused.
\<close>

theorem normX_clamps_counterexample:
  "normX clamp_example = Some ([1], clamp_example\<lparr>rs := [1 / 4]\<rparr>)
   \<and> rs clamp_example = [1 / 4, 5, 1 / 4]
   \<and> \<not> feasible clamp_example 0 (5 * sigma0 clamp_example ! 0 + xmean clamp_example ! 0)
   \<and> feasible clamp_example 0 (1 / 4 * sigma0 clamp_example ! 0 + xmean clamp_example ! 0)
   \<and> normXi clamp_example 0 = Some (1 / 2, clamp_example\<lparr>rs := []\<rparr>)"
  using clamp_example_normX clamp_example_normXi
  by (simp add: feasible_def clamp_example_def Fitness_new_def Let_def)

theorem normX_normXi_spec_witness:
  "normXi clamp_example 0 = Some (1 / 2, clamp_example\<lparr>rs := []\<rparr>)
   \<and> feasible clamp_example 0 (1 / 2)
   \<and> normX clamp_example = Some ([1], clamp_example\<lparr>rs := [1 / 4]\<rparr>)
   \<and> feasible clamp_example 0 ([1] ! 0)"
proof -
  have wf: "lower clamp_example = []
      \<or> (\<forall>j<Fitness.dim clamp_example. lower clamp_example ! j \<le> upper clamp_example ! j)"
    by (simp add: clamp_example_def Fitness_new_def Let_def)
  note spec = normX_normXi_spec [OF wf, of 0]
  from spec [THEN conjunct1, rule_format, OF clamp_example_normXi]
  have a: "feasible clamp_example 0 (1 / 2)" by blast
  from spec [THEN conjunct2, THEN conjunct2, rule_format, OF clamp_example_normX]
  have "\<forall>j<Fitness.dim clamp_example. feasible clamp_example j ([1] ! j)" by blast
  then have b: "feasible clamp_example 0 ([1] ! 0)"
    by (simp add: clamp_example_def Fitness_new_def Let_def)
  from a b clamp_example_normXi clamp_example_normX show ?thesis by blast
qed

section \<open>LDE: properties of the optimizer\<close>

subsection \<open>Evaluations per slot, generation and run\<close>

lemma kept_refl [simp]: "kept opt opt"
  by (simp add: kept_def)

lemma kept_trans: "kept a b \<Longrightarrow> kept b c \<Longrightarrow> kept a c"
  by (simp add: kept_def)

lemma distr_01_counter:
  "distr_01 f = Some (u, f') \<Longrightarrow> evaluationCounter f' = evaluationCounter f"
  by (auto simp: distr_01_def split: list.splits if_splits)

lemma normXi_loop_counter:
  "normXi_loop i sdev f = Some (v, f') \<Longrightarrow> evaluationCounter f' = evaluationCounter f"
proof (induction i sdev f rule: normXi_loop.induct)
  case (1 i sdev f)
  from "1.prems" show ?case
    apply (subst (asm) normXi_loop.simps)
    apply (auto simp: normreal_def gauss_01_def split: list.splits if_splits dest!: "1.IH" [rotated -1])
    done
qed

lemma normXi_counter:
  "normXi f i = Some (v, f') \<Longrightarrow> evaluationCounter f' = evaluationCounter f"
  by (auto simp: normXi_def split: option.splits if_splits
      dest!: distr_01_counter normXi_loop_counter)

lemma normX_counter:
  "normX f = Some (v, f') \<Longrightarrow> evaluationCounter f' = evaluationCounter f"
  by (auto simp: normX_def normalVec_def split: option.splits if_splits dest!: distr_01_counter)

lemma rnd01_kept: "rnd01 opt = Some (u, opt') \<Longrightarrow> kept opt opt'"
  by (auto simp: rnd01_def kept_def split: option.splits dest!: distr_01_counter)

lemma rndInt_kept: "rndInt mx opt = Some (r, opt') \<Longrightarrow> kept opt opt'"
  by (auto simp: rndInt_def split: option.splits dest!: rnd01_kept)

lemma pick_kept: "pick bad opt = Some (r, opt') \<Longrightarrow> kept opt opt'"
proof (induction bad opt rule: pick.induct)
  case (1 bad opt)
  from "1.prems" obtain r1 opt1 where a: "rndInt (LDeOptimizer.popsize opt) opt = Some (r1, opt1)"
    by (subst (asm) pick.simps) (auto split: option.splits)
  show ?case
  proof (cases "bad r1")
    case True
    with "1.prems" a have "pick bad opt1 = Some (r, opt')"
      by (subst (asm) pick.simps) simp
    from "1.IH" [OF a refl True this] rndInt_kept [OF a] show ?thesis
      by (rule kept_trans [rotated])
  next
    case False
    with "1.prems" a have "opt' = opt1"
      by (subst (asm) pick.simps) simp
    with rndInt_kept [OF a] show ?thesis by simp
  qed
qed

lemma fitfun_update_kept:
  "evaluationCounter f = evaluationCounter (fitfun opt) \<Longrightarrow> kept opt (opt\<lparr>fitfun := f\<rparr>)"
  by (simp add: kept_def)

lemma modify_loop_kept:
  "modify_loop ints limit idx x opt = Some (x', opt') \<Longrightarrow> kept opt opt'"
proof (induction ints limit idx x opt rule: modify_loop.induct)
  case (1 ints limit x opt)
  then show ?case by simp
next
  case (2 ints limit i "is" x opt)
  show ?case
  proof (cases "ints ! i")
    case False
    with 2 show ?thesis by simp
  next
    case True
    with "2.prems" obtain u opt1 where a: "rnd01 opt = Some (u, opt1)"
      by (auto split: option.splits)
    show ?thesis
    proof (cases "u < limit")
      case False
      with "2.prems" True a have "modify_loop ints limit is x opt1 = Some (x', opt')" by simp
      from "2.IH"(2) [OF True a refl False this] rnd01_kept [OF a] show ?thesis
        by (rule kept_trans [rotated])
    next
      case lt: True
      with "2.prems" True a obtain v f where b: "normXi (fitfun opt1) i = Some (v, f)"
        and c: "modify_loop ints limit is (x[i := real_of_int (to_int v)]) (opt1\<lparr>fitfun := f\<rparr>)
            = Some (x', opt')"
        by (auto split: option.splits)
      have "kept opt1 (opt1\<lparr>fitfun := f\<rparr>)"
        using normXi_counter [OF b] by (intro fitfun_update_kept) simp
      with "2.IH"(1) [OF True a refl lt b refl c] rnd01_kept [OF a] show ?thesis
        by (blast intro: kept_trans)
    qed
  qed
qed

lemma modify_kept: "modify x opt = Some (x', opt') \<Longrightarrow> kept opt opt'"
  by (auto simp: modify_def Let_def split: option.splits
      dest!: rnd01_kept modify_loop_kept intro: kept_trans)

lemma next_improve_kept: "next_improve xb x xi opt = Some (x', opt') \<Longrightarrow> kept opt opt'"
  by (auto simp: next_improve_def dest: modify_kept)

lemma trial_loop_kept:
  "trial_loop r CR F xb x1 x2 js x opt = Some (x', opt') \<Longrightarrow> kept opt opt'"
proof (induction r CR F xb x1 x2 js x opt rule: trial_loop.induct)
  case (1 r CR F xb x1 x2 x opt)
  then show ?case by simp
next
  case (2 r CR F xb x1 x2 j js x opt)
  define c where "c = (if j = r then Some (True, opt)
           else (case rnd01 opt of None \<Rightarrow> None | Some (u, opt) \<Rightarrow> Some (u < CR, opt)))"
  from "2.prems" obtain cross opt1 where c1: "c = Some (cross, opt1)"
    by (auto simp: c_def split: option.splits if_splits)
  have k1: "kept opt opt1"
    using c1 by (auto simp: c_def split: if_splits option.splits dest: rnd01_kept)
  show ?case
  proof (cases cross)
    case False
    with "2.prems" c1 have "trial_loop r CR F xb x1 x2 js x opt1 = Some (x', opt')"
      by (simp add: c_def)
    from "2.IH"(3) [OF c1 [unfolded c_def] refl False this] k1 show ?thesis
      by (rule kept_trans [rotated])
  next
    case True
    define xj where "xj = xb ! j + F * (x1 ! j - x2 ! j)"
    show ?thesis
    proof (cases "feasible (fitfun opt1) j xj")
      case fe: True
      with "2.prems" c1 True
      have "trial_loop r CR F xb x1 x2 js (x[j := xj]) opt1 = Some (x', opt')"
        by (simp add: c_def xj_def)
      from "2.IH"(2) [OF c1 [unfolded c_def] refl True xj_def _ this] fe k1 show ?thesis
        by (auto intro: kept_trans)
    next
      case nf: False
      with "2.prems" c1 True obtain v f where b: "normXi (fitfun opt1) j = Some (v, f)"
        and d: "trial_loop r CR F xb x1 x2 js (x[j := v]) (opt1\<lparr>fitfun := f\<rparr>) = Some (x', opt')"
        by (auto simp: c_def xj_def Let_def split: option.splits)
      have "kept opt1 (opt1\<lparr>fitfun := f\<rparr>)"
        using normXi_counter [OF b] by (intro fitfun_update_kept) simp
      with "2.IH"(1) [OF c1 [unfolded c_def] refl True xj_def nf b refl d] k1 show ?thesis
        by (blast intro: kept_trans)
    qed
  qed
qed

lemma eval_opt_counts:
  "eval_opt x opt = (y, opt') \<Longrightarrow>
    evaluationCounter (fitfun opt') = evaluationCounter (fitfun opt) + 1
    \<and> LDeOptimizer.popsize opt' = LDeOptimizer.popsize opt
    \<and> LDeOptimizer.maxEvaluations opt' = LDeOptimizer.maxEvaluations opt"
  by (auto simp: eval_opt_def eval_def Let_def)

lemma improve_counts:
  assumes "improve p xb xp x y opt = Some (b, opt')"
  shows "evaluationCounter (fitfun opt') = evaluationCounter (fitfun opt) + 1
    \<and> LDeOptimizer.popsize opt' = LDeOptimizer.popsize opt
    \<and> LDeOptimizer.maxEvaluations opt' = LDeOptimizer.maxEvaluations opt"
proof -
  from assms obtain x2 opt1 where a: "next_improve xb x xp opt = Some (x2, opt1)"
    by (auto simp: improve_def split: option.splits)
  obtain y2 opt2 where b: "eval_opt x2 opt1 = (y2, opt2)" by (cases "eval_opt x2 opt1")
  note k = next_improve_kept [OF a, unfolded kept_def] and e = eval_opt_counts [OF b]
  have u: "evaluationCounter (updateSigma v f) = evaluationCounter f" for v f
    by (simp add: updateSigma_def)
  from assms a b show ?thesis
    using k e
    by (auto simp: improve_def Let_def u split: if_splits prod.splits)
qed

lemma reinit_kept: "reinit p opt = Some (b, opt') \<Longrightarrow> kept opt opt'"
  by (auto simp: reinit_def kept_def split: option.splits if_splits
      dest!: rnd01_kept [unfolded kept_def] normX_counter)

lemma slot_counts:
  assumes "slot CR F p opt = Some (b, opt')"
  shows "evaluationCounter (fitfun opt') \<le> evaluationCounter (fitfun opt) + 2
    \<and> LDeOptimizer.popsize opt' = LDeOptimizer.popsize opt
    \<and> LDeOptimizer.maxEvaluations opt' = LDeOptimizer.maxEvaluations opt"
proof -
  from assms obtain r1 o1 where a1: "pick (\<lambda>r1. r1 = p \<or> r1 = bestI opt) opt = Some (r1, o1)"
    by (auto simp: slot_def Let_def split: option.splits)
  from assms a1 obtain r2 o2 where
    a2: "pick (\<lambda>r2. r2 = p \<or> r2 = bestI o1 \<or> r2 = r1) o1 = Some (r2, o2)"
    by (auto simp: slot_def Let_def split: option.splits)
  from assms a1 a2 obtain r o3 where a3: "rndInt (LDeOptimizer.dim o2) o2 = Some (r, o3)"
    by (auto simp: slot_def Let_def split: option.splits)
  from assms a1 a2 a3 obtain x o4 where
    a4: "trial_loop r CR F (LDeOptimizer.popX opt ! bestI opt) (LDeOptimizer.popX o3 ! r1)
           (LDeOptimizer.popX o3 ! r2) [0..<LDeOptimizer.dim o3] (LDeOptimizer.popX opt ! p) o3
         = Some (x, o4)"
    by (auto simp: slot_def Let_def split: option.splits)
  from assms a1 a2 a3 a4 obtain x' o5 where a5: "modify x o4 = Some (x', o5)"
    by (auto simp: slot_def Let_def split: option.splits)
  obtain y o6 where a6: "eval_opt x' o5 = (y, o6)" by (cases "eval_opt x' o5")
  from assms a1 a2 a3 a4 a5 a6 have a7:
    "(if isfinite y \<and> dless y (Fin (LDeOptimizer.popY o6 ! p))
      then improve p (LDeOptimizer.popX opt ! bestI opt) (LDeOptimizer.popX opt ! p) x' y o6
      else reinit p o6) = Some (b, opt')"
    by (simp add: slot_def Let_def)
  have k5: "kept opt o5"
    using pick_kept [OF a1] pick_kept [OF a2] rndInt_kept [OF a3] trial_loop_kept [OF a4]
      modify_kept [OF a5]
    by (blast intro: kept_trans)
  note e = eval_opt_counts [OF a6]
  show ?thesis
  proof (cases "isfinite y \<and> dless y (Fin (LDeOptimizer.popY o6 ! p))")
    case True
    with a7 have "improve p (LDeOptimizer.popX opt ! bestI opt) (LDeOptimizer.popX opt ! p) x' y o6
        = Some (b, opt')" by simp
    from improve_counts [OF this] e k5 show ?thesis by (simp add: kept_def)
  next
    case False
    with a7 have "reinit p o6 = Some (b, opt')" by simp
    from reinit_kept [OF this] e k5 show ?thesis by (simp add: kept_def)
  qed
qed

lemma generation_counts:
  "generation CR F ps opt = Some (b, opt') \<Longrightarrow>
    evaluationCounter (fitfun opt') \<le> evaluationCounter (fitfun opt) + 2 * int (length ps)
    \<and> LDeOptimizer.popsize opt' = LDeOptimizer.popsize opt
    \<and> LDeOptimizer.maxEvaluations opt' = LDeOptimizer.maxEvaluations opt"
proof (induction ps arbitrary: opt)
  case Nil
  then show ?case by simp
next
  case (Cons p ps)
  from Cons.prems obtain r o1 where a: "slot CR F p opt = Some (r, o1)"
    by (auto split: option.splits)
  note s = slot_counts [OF a]
  show ?case
  proof (cases r)
    case True
    with Cons.prems a have "opt' = o1" by simp
    with s show ?thesis by simp
  next
    case False
    with Cons.prems a have "generation CR F ps o1 = Some (b, opt')" by simp
    from Cons.IH [OF this] s show ?thesis by simp
  qed
qed

lemma slot_evaluates:
  assumes "slot CR F p opt = Some (b, opt')"
  shows "evaluationCounter (fitfun opt) + 1 \<le> evaluationCounter (fitfun opt')"
proof -
  from assms obtain r1 o1 where a1: "pick (\<lambda>r1. r1 = p \<or> r1 = bestI opt) opt = Some (r1, o1)"
    by (auto simp: slot_def Let_def split: option.splits)
  from assms a1 obtain r2 o2 where
    a2: "pick (\<lambda>r2. r2 = p \<or> r2 = bestI o1 \<or> r2 = r1) o1 = Some (r2, o2)"
    by (auto simp: slot_def Let_def split: option.splits)
  from assms a1 a2 obtain r o3 where a3: "rndInt (LDeOptimizer.dim o2) o2 = Some (r, o3)"
    by (auto simp: slot_def Let_def split: option.splits)
  from assms a1 a2 a3 obtain x o4 where
    a4: "trial_loop r CR F (LDeOptimizer.popX opt ! bestI opt) (LDeOptimizer.popX o3 ! r1)
           (LDeOptimizer.popX o3 ! r2) [0..<LDeOptimizer.dim o3] (LDeOptimizer.popX opt ! p) o3
         = Some (x, o4)"
    by (auto simp: slot_def Let_def split: option.splits)
  from assms a1 a2 a3 a4 obtain x' o5 where a5: "modify x o4 = Some (x', o5)"
    by (auto simp: slot_def Let_def split: option.splits)
  obtain y o6 where a6: "eval_opt x' o5 = (y, o6)" by (cases "eval_opt x' o5")
  from assms a1 a2 a3 a4 a5 a6 have a7:
    "(if isfinite y \<and> dless y (Fin (LDeOptimizer.popY o6 ! p))
      then improve p (LDeOptimizer.popX opt ! bestI opt) (LDeOptimizer.popX opt ! p) x' y o6
      else reinit p o6) = Some (b, opt')"
    by (simp add: slot_def Let_def)
  have k5: "kept opt o5"
    using pick_kept [OF a1] pick_kept [OF a2] rndInt_kept [OF a3] trial_loop_kept [OF a4]
      modify_kept [OF a5]
    by (blast intro: kept_trans)
  note e = eval_opt_counts [OF a6]
  show ?thesis
  proof (cases "isfinite y \<and> dless y (Fin (LDeOptimizer.popY o6 ! p))")
    case True
    with a7 have "improve p (LDeOptimizer.popX opt ! bestI opt) (LDeOptimizer.popX opt ! p) x' y o6
        = Some (b, opt')" by simp
    from improve_counts [OF this] e k5 show ?thesis by (simp add: kept_def)
  next
    case False
    with a7 have "reinit p o6 = Some (b, opt')" by simp
    from reinit_kept [OF this] e k5 show ?thesis by (simp add: kept_def)
  qed
qed

lemma generation_evaluates:
  "generation CR F ps opt = Some (False, opt') \<Longrightarrow>
    evaluationCounter (fitfun opt) + int (length ps) \<le> evaluationCounter (fitfun opt')"
proof (induction ps arbitrary: opt)
  case Nil
  then show ?case by simp
next
  case (Cons p ps)
  from Cons.prems obtain r o1 where a: "slot CR F p opt = Some (r, o1)"
    by (auto split: option.splits)
  with Cons.prems have r: "\<not> r" and g: "generation CR F ps o1 = Some (False, opt')"
    by (auto split: if_splits)
  from Cons.IH [OF g] slot_evaluates [OF a] show ?case by simp
qed

lemma generation_mono:
  "generation CR F ps opt = Some (b, opt') \<Longrightarrow>
    evaluationCounter (fitfun opt) \<le> evaluationCounter (fitfun opt')"
proof (induction ps arbitrary: opt)
  case Nil
  then show ?case by simp
next
  case (Cons p ps)
  from Cons.prems obtain r o1 where a: "slot CR F p opt = Some (r, o1)"
    by (auto split: option.splits)
  note s = slot_evaluates [OF a]
  show ?case
  proof (cases r)
    case True
    with Cons.prems a have "opt' = o1" by simp
    with s show ?thesis by simp
  next
    case False
    with Cons.prems a have "generation CR F ps o1 = Some (b, opt')" by simp
    from Cons.IH [OF this] s show ?thesis by simp
  qed
qed

text \<open>
  The budget test reads the counter through \<open>getEvaluations\<close>.  As long as the counter
  stays below \<open>2 ^ 31\<close> the test sees the counter itself; that is so for a whole run
  when \<open>maxEvaluations + 2 * popsize - 1\<close> is below \<open>2 ^ 31\<close>.  A counter that reaches
  \<open>2 ^ 31\<close> is read as a negative number and passes the test again
  (\<open>budget_test_wraps\<close>): the bounds below are for budgets that stay clear of that.
\<close>

lemma to_int32_id: "- (2 ^ 31) \<le> c \<Longrightarrow> c < 2 ^ 31 \<Longrightarrow> to_int32 c = c"
  by (simp add: to_int32_def)

lemma to_int32_wraps: "to_int32 (2 ^ 31) = - (2 ^ 31)"
  by (simp add: to_int32_def)

lemma budget_test_wraps:
  "evaluationCounter f = 2 ^ 31 \<Longrightarrow> - (2 ^ 31) < m \<Longrightarrow> getEvaluations f < m"
  by (simp add: getEvaluations_def to_int32_def)

lemma doOptimize_loop_counts:
  "doOptimize_loop fuel opt = Some opt' \<Longrightarrow>
    0 \<le> evaluationCounter (fitfun opt) \<Longrightarrow> evaluationCounter (fitfun opt) < 2 ^ 31 \<Longrightarrow>
    LDeOptimizer.maxEvaluations opt + 2 * int (LDeOptimizer.popsize opt) - 1 < 2 ^ 31 \<Longrightarrow>
    evaluationCounter (fitfun opt')
      \<le> max (evaluationCounter (fitfun opt))
            (LDeOptimizer.maxEvaluations opt + 2 * int (LDeOptimizer.popsize opt) - 1)
    \<and> LDeOptimizer.popsize opt' = LDeOptimizer.popsize opt
    \<and> LDeOptimizer.maxEvaluations opt' = LDeOptimizer.maxEvaluations opt"
proof (induction fuel arbitrary: opt)
  case 0
  then show ?case by simp
next
  case (Suc fuel)
  have ge: "getEvaluations (fitfun opt) = evaluationCounter (fitfun opt)"
    using Suc.prems(2,3) by (simp add: getEvaluations_def to_int32_id)
  show ?case
  proof (cases "getEvaluations (fitfun opt) < LDeOptimizer.maxEvaluations opt")
    case False
    with Suc.prems(1) show ?thesis by simp
  next
    case True
    define CR where "CR = (if iterations opt mod 2 = 0 then 0.5 * CR0 opt else CR0 opt)"
    define F where "F = (if iterations opt mod 2 = 0 then 0.5 * F0 opt else F0 opt)"
    from Suc.prems(1) True obtain r o1 where
      g: "generation CR F [0..<LDeOptimizer.popsize opt] opt = Some (r, o1)"
      by (auto simp: Let_def CR_def F_def split: option.splits)
    note c = generation_counts [OF g]
    note m = generation_mono [OF g]
    have b1: "evaluationCounter (fitfun o1)
        \<le> LDeOptimizer.maxEvaluations opt + 2 * int (LDeOptimizer.popsize opt) - 1"
      using c True by (simp add: ge)
    show ?thesis
    proof (cases r)
      case True
      with Suc.prems(1) \<open>getEvaluations (fitfun opt) < LDeOptimizer.maxEvaluations opt\<close> g
      have "opt' = o1" by (simp add: Let_def CR_def F_def)
      with c b1 show ?thesis by simp
    next
      case False
      define o2 where "o2 = o1\<lparr>iterations := iterations o1 + 1\<rparr>"
      from False Suc.prems(1) \<open>getEvaluations (fitfun opt) < LDeOptimizer.maxEvaluations opt\<close> g
      have run: "doOptimize_loop fuel o2 = Some opt'"
        by (simp add: Let_def CR_def F_def o2_def)
      have 1: "0 \<le> evaluationCounter (fitfun o2)" using m Suc.prems(2) by (simp add: o2_def)
      have 2: "evaluationCounter (fitfun o2) < 2 ^ 31" using b1 Suc.prems(4) by (simp add: o2_def)
      have 3: "LDeOptimizer.maxEvaluations o2 + 2 * int (LDeOptimizer.popsize o2) - 1 < 2 ^ 31"
        using c Suc.prems(4) by (simp add: o2_def)
      from Suc.IH [OF run 1 2 3] c b1 show ?thesis by (auto simp: max_def o2_def)
    qed
  qed
qed

text \<open>
  Fuel.  A generation that does not return evaluates at least once in every slot.  With a
  positive population size the loop therefore runs for at most
  \<open>maxEvaluations - evaluations\<close> generations: with more fuel than that the result is
  the one of any larger amount, and a run without result is one whose draws ran out.
\<close>

lemma doOptimize_loop_fuel:
  "0 < LDeOptimizer.popsize opt \<Longrightarrow>
    0 \<le> evaluationCounter (fitfun opt) \<Longrightarrow> evaluationCounter (fitfun opt) < 2 ^ 31 \<Longrightarrow>
    LDeOptimizer.maxEvaluations opt + 2 * int (LDeOptimizer.popsize opt) - 1 < 2 ^ 31 \<Longrightarrow>
    nat (LDeOptimizer.maxEvaluations opt - evaluationCounter (fitfun opt)) < fuel \<Longrightarrow>
    doOptimize_loop (fuel + k) opt = doOptimize_loop fuel opt"
proof (induction fuel arbitrary: opt)
  case 0
  then show ?case by simp
next
  case (Suc fuel)
  have ge: "getEvaluations (fitfun opt) = evaluationCounter (fitfun opt)"
    using Suc.prems(2,3) by (simp add: getEvaluations_def to_int32_id)
  show ?case
  proof (cases "getEvaluations (fitfun opt) < LDeOptimizer.maxEvaluations opt")
    case False
    then show ?thesis by simp
  next
    case True
    define CR where "CR = (if iterations opt mod 2 = 0 then 0.5 * CR0 opt else CR0 opt)"
    define F where "F = (if iterations opt mod 2 = 0 then 0.5 * F0 opt else F0 opt)"
    show ?thesis
    proof (cases "generation CR F [0..<LDeOptimizer.popsize opt] opt")
      case None
      with True show ?thesis by (simp add: Let_def CR_def F_def)
    next
      case (Some a)
      obtain r o1 where a: "a = (r, o1)" by (cases a)
      show ?thesis
      proof (cases r)
        case True
        with Some a \<open>getEvaluations (fitfun opt) < LDeOptimizer.maxEvaluations opt\<close>
        show ?thesis by (simp add: Let_def CR_def F_def)
      next
        case False
        with Some a have g: "generation CR F [0..<LDeOptimizer.popsize opt] opt = Some (False, o1)"
          by simp
        define o2 where "o2 = o1\<lparr>iterations := iterations o1 + 1\<rparr>"
        note c = generation_counts [OF g]
        from generation_evaluates [OF g] Suc.prems(1)
        have up: "evaluationCounter (fitfun opt) + 1 \<le> evaluationCounter (fitfun o1)" by simp
        have 1: "0 < LDeOptimizer.popsize o2" using c Suc.prems(1) by (simp add: o2_def)
        have 2: "0 \<le> evaluationCounter (fitfun o2)" using up Suc.prems(2) by (simp add: o2_def)
        have 3: "evaluationCounter (fitfun o2) < 2 ^ 31"
          using c True Suc.prems(4) by (simp add: o2_def ge)
        have 4: "LDeOptimizer.maxEvaluations o2 + 2 * int (LDeOptimizer.popsize o2) - 1 < 2 ^ 31"
          using c Suc.prems(4) by (simp add: o2_def)
        have 5: "nat (LDeOptimizer.maxEvaluations o2 - evaluationCounter (fitfun o2)) < fuel"
          using up c True Suc.prems(5) by (simp add: o2_def ge)
        have "doOptimize_loop (fuel + k) o2 = doOptimize_loop fuel o2"
          by (rule Suc.IH [OF 1 2 3 4 5])
        with g True False show ?thesis by (simp add: Let_def CR_def F_def o2_def)
      qed
    qed
  qed
qed

subsection \<open>Integer coordinates\<close>

text \<open>
  C2 fails on the code.  \<open>int_opt\<close> has one coordinate, flagged as integer, and the guess
  \<open>1/4\<close>.  The first vector \<open>doOptimize\<close> passes to the objective is \<open>[1/4]\<close>:
  \<open>modify\<close> truncates a coordinate only when it resamples it, and nothing rounds the
  others.
\<close>

theorem modify_keeps_fraction:
  "\<exists>opt'. doOptimize 2 int_opt = Some opt' \<and> isInt int_opt = Some [True]
     \<and> calls (fitfun opt') ! 0 = [1 / 4]
     \<and> real_of_int (round (1 / 4 :: real)) \<noteq> 1 / 4"
proof -
  have "map_option (\<lambda>opt. calls (fitfun opt)) (doOptimize 2 int_opt) = Some (replicate 8 [1 / 4])"
    by code_simp
  then obtain opt' where "doOptimize 2 int_opt = Some opt'"
    "calls (fitfun opt') = replicate 8 [1 / 4]"
    by auto
  moreover have "isInt int_opt = Some [True]"
    by (simp add: int_opt_def LDeOptimizer_new_def init_def)
  moreover have "real_of_int (round (1 / 4 :: real)) \<noteq> 1 / 4"
    by (simp add: round_def)
  ultimately show ?thesis by (intro exI [of _ opt']) (simp add: eval_nat_numeral)
qed

section \<open>MODE: properties of the ranking kernel\<close>

subsection \<open>Facts about sort_index and scattered writes\<close>

lemma sorting_length: "sorting si \<Longrightarrow> length (si v) = length v"
  unfolding sorting_def by (metis length_upt mset_eq_length minus_nat.diff_0)

lemma sorting_set: "sorting si \<Longrightarrow> set (si v) = {0..<length v}"
  unfolding sorting_def by (metis mset_eq_setD set_upt)

lemma sorting_distinct: "sorting si \<Longrightarrow> distinct (si v)"
  unfolding sorting_def by (metis distinct_upt mset_eq_imp_distinct_iff)

lemma sorting_sorted: "sorting si \<Longrightarrow> sorted (map ((!) v) (si v))"
  unfolding sorting_def by simp

lemma sorting_nth_less: "sorting si \<Longrightarrow> k < length v \<Longrightarrow> si v ! k < length v"
  using sorting_set [of si v] sorting_length [of si v] nth_mem [of k "si v"] by auto

lemma sorting_stable_sort_index: "sorting stable_sort_index"
  unfolding sorting_def stable_sort_index_def by simp




lemma length_add_at: "length (add_at idx vs d) = length d"
  by (induction idx vs d rule: add_at.induct) simp_all

lemma add_at_notin: "i \<notin> set idx \<Longrightarrow> add_at idx vs d ! i = d ! i"
  by (induction idx vs d rule: add_at.induct) auto

lemma add_at_mono: "i < length d \<Longrightarrow> d ! i \<le> add_at idx vs d ! i"
proof (induction idx vs d rule: add_at.induct)
  case (1 j "is" v vs d)
  have "d ! i \<le> d[j := d ! j + v] ! i"
    using 1(2) by (cases "i = j") simp_all
  also have "\<dots> \<le> add_at is vs (d[j := d ! j + v]) ! i"
    using 1 by simp
  finally show ?case by simp
qed simp_all

lemma add_at_nth:
  "distinct idx \<Longrightarrow> length vs = length idx \<Longrightarrow> k < length idx \<Longrightarrow> idx ! k < length d
    \<Longrightarrow> add_at idx vs d ! (idx ! k) = d ! (idx ! k) + vs ! k"
proof (induction idx vs d arbitrary: k rule: add_at.induct)
  case (1 i "is" v vs d)
  show ?case
  proof (cases k)
    case 0
    with 1 show ?thesis by (simp add: add_at_notin)
  next
    case (Suc k')
    with 1 have "is ! k' \<noteq> i" by auto
    with 1 Suc show ?thesis by simp
  qed
qed simp_all

subsection \<open>Enhanced constraint ranking\<close>

lemma length_ranks: "length (ranks si cons) = length cons"
  by (simp add: ranks_def Let_def split: prod.splits)

lemma length_objranks: "length (objranks si objs) = length objs"
  by (simp add: objranks_def Let_def)

lemma feasible_iff:
  assumes "length c = n_obj + n_con" and "0 < n_con"
  shows "(Max (set (drop (length c - n_con) c)) \<le> 0) \<longleftrightarrow> (\<forall>j<n_con. c ! (n_obj + j) \<le> 0)"
proof -
  have ne: "drop n_obj c \<noteq> []" using assms by simp
  have "(Max (set (drop n_obj c)) \<le> 0) \<longleftrightarrow> (\<forall>x\<in>set (drop n_obj c). x \<le> 0)"
    using ne by (simp add: Max_le_iff)
  also have "\<dots> \<longleftrightarrow> (\<forall>j<length (drop n_obj c). drop n_obj c ! j \<le> 0)"
    by (simp add: all_set_conv_all_nth)
  also have "\<dots> \<longleftrightarrow> (\<forall>j<n_con. c ! (n_obj + j) \<le> 0)"
    using assms by simp
  finally show ?thesis using assms by simp
qed

text \<open>
  C3.  Let \<open>ys\<close> be a matrix of columns with \<open>nobj\<close> objective values followed by
  \<open>ncon > 0\<close> constraint values.  If column \<open>a\<close> is feasible (all its constraint values
  are \<open>\<le> 0\<close>) and column \<open>b\<close> is not (one of its constraint values is positive), the
  domination score \<open>pareto\<close> gives to \<open>a\<close> is strictly higher than the one it gives to
  \<open>b\<close>.  This holds for every \<open>sort_index\<close> that returns a sorting permutation,
  whatever it does with ties.
\<close>

theorem pareto_feasible_priority:
  assumes si: "sorting si" and n_con: "0 < n_con"
    and wf: "\<forall>c\<in>set ys. length c = n_obj + n_con"
    and a: "a < length ys" and b: "b < length ys"
    and fa: "\<forall>j<n_con. ys ! a ! (n_obj + j) \<le> 0"
    and fb: "\<exists>j<n_con. 0 < ys ! b ! (n_obj + j)"
  shows "pareto si n_obj n_con ys ! b < pareto si n_obj n_con ys ! a"
proof -
  define popn where "popn = length ys"
  define yobj where "yobj = map (take n_obj) ys"
  define ycon where "ycon = map (\<lambda>c. drop (length c - n_con) c) ys"
  define feasible where "feasible = map (\<lambda>c. Max (set c) \<le> 0) ycon"
  define csum where "csum =
    (if list_ex (\<lambda>b. b) feasible then map2 (+) (ranks si ycon) (objranks si yobj)
     else ranks si ycon)"
  define cy where "cy = filter (\<lambda>i. feasible ! i) [0..<popn]"
  define dom1 where "dom1 =
    (if list_ex (\<lambda>b. b) feasible
     then add_at cy (pareto_levels (map ((!) yobj) cy)) (replicate popn 0)
     else replicate popn 0)"
  define civ where "civ = filter (\<lambda>i. \<not> feasible ! i) (si csum)"
  define m where "m = length civ"
  define dom2 where "dom2 = add_at civ (map (\<lambda>i. m - i) [0..<m]) dom1"
  have feas: "feasible ! i \<longleftrightarrow> (\<forall>j<n_con. ys ! i ! (n_obj + j) \<le> 0)" if "i < length ys" for i
  proof -
    have "length (ys ! i) = n_obj + n_con" using wf that by simp
    from feasible_iff [OF this n_con] show ?thesis
      using that by (simp add: feasible_def ycon_def)
  qed
  have feas_a: "feasible ! a" using feas [OF a] fa by simp
  have feas_b: "\<not> feasible ! b" using feas [OF b] fb by (auto simp: not_le)
  have len_csum: "length csum = popn"
    by (simp add: csum_def ycon_def yobj_def popn_def length_ranks length_objranks)
  have a_cy: "a \<in> set cy" using a feas_a by (simp add: cy_def popn_def)
  have b_cy: "b \<notin> set cy" using feas_b by (simp add: cy_def)
  have dist_cy: "distinct cy" by (simp add: cy_def)
  have b_civ: "b \<in> set civ"
    using b feas_b sorting_set [OF si, of csum] by (simp add: civ_def len_csum popn_def)
  have a_civ: "a \<notin> set civ" using feas_a by (simp add: civ_def)
  have dist_civ: "distinct civ" using sorting_distinct [OF si] by (simp add: civ_def)
  have m_pos: "0 < m" using b_civ by (auto simp: m_def)
  have cy_ne: "0 < length cy" using a_cy by auto
  have len1: "length dom1 = popn" by (simp add: dom1_def length_add_at)
  have "pareto si n_obj n_con ys =
      (if 0 < length civ
       then if 0 < length cy then add_at cy (replicate (length cy) (m + 1)) dom2 else dom2
       else dom1)"
    unfolding pareto_def Let_def dom2_def m_def civ_def dom1_def cy_def csum_def
      feasible_def ycon_def yobj_def popn_def
    using n_con by simp
  then have eq: "pareto si n_obj n_con ys = add_at cy (replicate (length cy) (m + 1)) dom2"
    using m_pos cy_ne by (simp add: m_def)
  obtain ka where ka: "ka < length cy" "cy ! ka = a"
    using a_cy by (auto simp: in_set_conv_nth)
  obtain kb where kb: "kb < length civ" "civ ! kb = b"
    using b_civ by (auto simp: in_set_conv_nth)
  have "pareto si n_obj n_con ys ! b = dom2 ! b"
    by (simp add: eq add_at_notin [OF b_cy])
  also have "dom2 ! b = dom1 ! b + (m - kb)"
    using add_at_nth [of civ "map (\<lambda>i. m - i) [0..<m]" kb dom1] dist_civ kb b len1
    by (simp add: dom2_def m_def popn_def)
  also have "dom1 ! b = 0"
    using b by (simp add: dom1_def add_at_notin [OF b_cy] popn_def)
  finally have vb: "pareto si n_obj n_con ys ! b \<le> m" by simp
  have "pareto si n_obj n_con ys ! a = dom2 ! a + (m + 1)"
    using add_at_nth [of cy "replicate (length cy) (m + 1)" ka dom2] dist_cy ka a len1
    by (simp add: eq dom2_def popn_def length_add_at)
  then have "m + 1 \<le> pareto si n_obj n_con ys ! a" by simp
  with vb show ?thesis by simp
qed

theorem pareto_feasible_priority_witness:
  "pareto stable_sort_index 1 1 [[1, 0], [2, 1], [0, - 1]] ! 1
     < pareto stable_sort_index 1 1 [[1, 0], [2, 1], [0, - 1]] ! 0"
  using pareto_feasible_priority [OF sorting_stable_sort_index, of 1 "[[1, 0], [2, 1], [0, - 1]]" 1 0 1]
  by simp

subsection \<open>Crowding distance\<close>


text \<open>
  What \<open>crowd_dist\<close> returns holds no NaN and nothing negative, and on such values
  \<open>sort_value\<close> keeps the order and the ties of the doubles: \<open>sort_index_cd\<close> lists
  the entries in an ascending order of the doubles (\<open>sort_index_cd_sorts\<close>).
\<close>

lemma fl_range: "fl x = Fin r \<Longrightarrow> - DBL_MAX \<le> r \<and> r \<le> DBL_MAX"
  by (auto simp: fl_def Let_def split: if_splits intro: less_imp_le [OF DBL_MAX_pos])

lemma distance_fl:
  "0 \<le> x \<Longrightarrow> fl x = PInf \<or> (\<exists>r. fl x = Fin r \<and> 0 \<le> r \<and> r \<le> DBL_MAX)"
  using fl_nonneg [of x] fl_range [of x] by auto

lemma distance_dadd:
  assumes "v = PInf \<or> (\<exists>r. v = Fin r \<and> 0 \<le> r \<and> r \<le> DBL_MAX)"
    and "w = PInf \<or> (\<exists>r. w = Fin r \<and> 0 \<le> r \<and> r \<le> DBL_MAX)"
  shows "dadd v w = PInf \<or> (\<exists>r. dadd v w = Fin r \<and> 0 \<le> r \<and> r \<le> DBL_MAX)"
proof -
  consider "v = PInf" | "w = PInf" | a b where "v = Fin a" "w = Fin b" "0 \<le> a" "0 \<le> b"
    using assms by blast
  then show ?thesis
  proof cases
    case 1
    with assms(2) show ?thesis by auto
  next
    case 2
    with assms(1) show ?thesis by auto
  next
    case 3
    then show ?thesis using distance_fl [of "a + b"] by simp
  qed
qed

lemma set_assign_at: "set (assign_at idx vs d) \<subseteq> set vs \<union> set d"
proof (induction idx vs d rule: assign_at.induct)
  case (1 i "is" v vs d)
  have "set (d[i := v]) \<subseteq> insert v (set d)" by (rule set_update_subset_insert)
  with 1 show ?case by auto
qed simp_all

lemma crowd_dist_range:
  assumes si: "sorting si" and cd: "crowd_dist si y = Some cd"
  shows "\<forall>v\<in>set cd. v = PInf \<or> (\<exists>r. v = Fin r \<and> 0 \<le> r \<and> r \<le> DBL_MAX)"
proof -
  define n where "n = length y"
  define y0s where "y0s = map ((!) (row y 0)) (si (row y 0))"
  define d where "d = map (\<lambda>i. dsub (y0s ! (i + 1)) (y0s ! i)) [0..<n - 1]"
  define dsum0 where "dsum0 = map (\<lambda>i. let v = Fin 0;
                 v = (if 0 < i then dadd v (d ! (i - 1)) else v)
             in if i < n - 1 then dadd v (d ! i) else v) [0..<n]"
  let ?ok = "\<lambda>v. v = PInf \<or> (\<exists>r. v = Fin r \<and> 0 \<le> r \<and> r \<le> DBL_MAX)"
  have n2: "2 \<le> n"
  proof (rule ccontr)
    assume "\<not> 2 \<le> n"
    then have "crowd_dist si y = None" by (simp add: crowd_dist_def n_def)
    with cd show False by simp
  qed
  have len: "length y0s = n"
    using sorting_length [OF si, of "row y 0"] by (simp add: y0s_def row_def n_def)
  have "sorted y0s" using sorting_sorted [OF si] by (simp add: y0s_def)
  then have step: "y0s ! i \<le> y0s ! (i + 1)" if "i < n - 1" for i
    using that len by (simp add: sorted_iff_nth_mono)
  have d: "?ok (d ! i)" if "i < n - 1" for i
    using that distance_fl [of "y0s ! (i + 1) - y0s ! i"] step [OF that]
    by (simp add: d_def dsub_def)
  have zero: "?ok (Fin 0)" using DBL_MAX_pos by simp
  have big: "?ok (Fin DBL_MAX)" using DBL_MAX_pos by simp
  have dsum0: "?ok v" if "v \<in> set dsum0" for v
  proof -
    from that obtain i where i: "i < n"
      and v: "v = (let v = Fin 0; v = (if 0 < i then dadd v (d ! (i - 1)) else v)
                  in if i < n - 1 then dadd v (d ! i) else v)"
      by (auto simp: dsum0_def)
    define v1 where "v1 = (if 0 < i then dadd (Fin 0) (d ! (i - 1)) else Fin 0)"
    have v1: "?ok v1"
    proof (cases "0 < i")
      case True
      then have "i - 1 < n - 1" using i by simp
      from distance_dadd [OF zero d [OF this]] True show ?thesis by (simp add: v1_def)
    next
      case False
      with zero show ?thesis by (simp add: v1_def)
    qed
    have "v = (if i < n - 1 then dadd v1 (d ! i) else v1)" by (simp add: v Let_def v1_def)
    then show ?thesis using v1 distance_dadd [OF v1 d [of i]] by (cases "i < n - 1") simp_all
  qed
  have upd: "?ok v" if "v \<in> set (dsum0[0 := Fin DBL_MAX, n - 1 := Fin DBL_MAX])" for v
  proof -
    have "set (dsum0[0 := Fin DBL_MAX, n - 1 := Fin DBL_MAX])
        \<subseteq> insert (Fin DBL_MAX) (insert (Fin DBL_MAX) (set dsum0))"
      by (meson set_update_subset_insert insert_mono subset_trans)
    with that have "v = Fin DBL_MAX \<or> v \<in> set dsum0" by auto
    with big dsum0 show ?thesis by blast
  qed
  have zs: "?ok v" if "v \<in> set (map Fin (zeros n))" for v
    using that zero by (auto simp: zeros_def)
  have "crowd_dist si y =
      (if maxCoeff d = Fin 0 then Some (map Fin (zeros n))
       else Some (assign_at (si (row y 0)) (dsum0[0 := Fin DBL_MAX, n - 1 := Fin DBL_MAX])
                    (map Fin (zeros n))))"
    unfolding crowd_dist_def Let_def dsum0_def d_def y0s_def n_def
    using n2 [unfolded n_def] by simp
  with cd have "cd = map Fin (zeros n)
      \<or> cd = assign_at (si (row y 0)) (dsum0[0 := Fin DBL_MAX, n - 1 := Fin DBL_MAX])
               (map Fin (zeros n))"
    by (cases "maxCoeff d = Fin 0") simp_all
  then show ?thesis
  proof
    assume "cd = map Fin (zeros n)"
    then show ?thesis using zs by simp
  next
    assume a: "cd = assign_at (si (row y 0)) (dsum0[0 := Fin DBL_MAX, n - 1 := Fin DBL_MAX])
               (map Fin (zeros n))"
    show ?thesis
    proof
      fix v assume "v \<in> set cd"
      then have "v \<in> set (dsum0[0 := Fin DBL_MAX, n - 1 := Fin DBL_MAX])
          \<union> set (map Fin (zeros n))"
        unfolding a by (rule subsetD [OF set_assign_at])
      then show "?ok v"
      proof
        assume "v \<in> set (dsum0[0 := Fin DBL_MAX, n - 1 := Fin DBL_MAX])"
        then show ?thesis by (rule upd)
      next
        assume "v \<in> set (map Fin (zeros n))"
        then show ?thesis by (rule zs)
      qed
    qed
  qed
qed

lemma sort_value_order:
  assumes "v = PInf \<or> (\<exists>r. v = Fin r \<and> 0 \<le> r \<and> r \<le> DBL_MAX)"
    and "w = PInf \<or> (\<exists>r. w = Fin r \<and> 0 \<le> r \<and> r \<le> DBL_MAX)"
  shows "sort_value v < sort_value w \<longleftrightarrow> dless v w"
    and "sort_value v = sort_value w \<longleftrightarrow> v = w"
proof -
  consider "v = PInf" "w = PInf"
    | b where "v = PInf" "w = Fin b" "b \<le> DBL_MAX"
    | a where "v = Fin a" "a \<le> DBL_MAX" "w = PInf"
    | a b where "v = Fin a" "w = Fin b"
    using assms by blast
  then have "(sort_value v < sort_value w \<longleftrightarrow> dless v w)
      \<and> (sort_value v = sort_value w \<longleftrightarrow> v = w)"
    using DBL_MAX_pos by cases simp_all
  then show "sort_value v < sort_value w \<longleftrightarrow> dless v w"
    and "sort_value v = sort_value w \<longleftrightarrow> v = w" by simp_all
qed

lemma sort_index_cd_sorts:
  assumes si: "sorting si" and cd: "crowd_dist si y = Some cd"
    and ij: "i \<le> j" "j < length cd"
  shows "\<not> dless (cd ! (sort_index_cd si cd ! j)) (cd ! (sort_index_cd si cd ! i))"
proof -
  define v where "v = map sort_value cd"
  define s where "s = si v"
  have len: "length s = length cd" using sorting_length [OF si, of v] by (simp add: s_def v_def)
  have lt: "s ! k < length cd" if "k < length cd" for k
    using sorting_nth_less [OF si, of k v] that by (simp add: s_def v_def)
  have "sorted (map ((!) v) s)" unfolding s_def by (rule sorting_sorted [OF si])
  then have "map ((!) v) s ! i \<le> map ((!) v) s ! j"
    using ij len by (simp add: sorted_iff_nth_mono)
  then have le: "sort_value (cd ! (s ! i)) \<le> sort_value (cd ! (s ! j))"
    using ij len lt [of i] lt [of j] by (simp add: v_def)
  note r = crowd_dist_range [OF si cd, rule_format]
  have ri: "cd ! (s ! i) \<in> set cd" and rj: "cd ! (s ! j) \<in> set cd"
    using lt [of i] lt [of j] ij by simp_all
  from sort_value_order(1) [OF r [OF rj] r [OF ri]] le
  have "\<not> dless (cd ! (s ! j)) (cd ! (s ! i))" by simp
  then show ?thesis by (simp add: sort_index_cd_def s_def v_def)
qed


lemma is_double_small: "is_double 1" "is_double 2" "is_double 3"
  unfolding is_double_def by code_simp+



text \<open>
  Rounding next to \<^verbatim>\<open>DBL_MAX\<close>.  In a first generation a level can hold a column whose
  fitness is still \<^verbatim>\<open>DBL_MAX\<close>.  The gap from 3 to \<^verbatim>\<open>DBL_MAX\<close> rounds to \<^verbatim>\<open>DBL_MAX\<close>
  and so does that gap plus 1: the interior column ties with the two borders.
\<close>

lemma DBL_MAX_gt_3: "3 < DBL_MAX" "2 < DBL_MAX"
  unfolding DBL_MAX_def by simp_all

lemma crowd_dist_absorbs:
  "crowd_dist stable_sort_index [[DBL_MAX, DBL_MAX], [2, 3], [3, 2]]
    = Some [Fin DBL_MAX, Fin DBL_MAX, Fin DBL_MAX]"
proof -
  have s: "stable_sort_index [DBL_MAX, 2, 3] = [1, 2, 0]"
    using DBL_MAX_gt_3 by (simp add: stable_sort_index_def upt_rec)
  have r: "row [[DBL_MAX, DBL_MAX], [2, 3], [3, 2]] 0 = [DBL_MAX, 2, 3]"
    by (simp add: row_def)
  have g1: "dsub 3 2 = Fin 1" by code_simp
  have g2: "dsub DBL_MAX 3 = Fin DBL_MAX" by (rule dsub_DBL_MAX) simp_all
  have a: "fl (1 + DBL_MAX) = Fin DBL_MAX" using dadd_DBL_MAX [of 1] by simp
  have z: "fl 1 = Fin 1" using is_double_small(1) by (simp add: is_double_def)
  have m: "dmax (Fin 1) (Fin DBL_MAX) = Fin DBL_MAX" using DBL_MAX_gt_3 by (simp add: dmax_def)
  have nz: "Fin DBL_MAX \<noteq> Fin 0" using DBL_MAX_pos by simp
  show ?thesis
    unfolding crowd_dist_def Let_def r s
    by (simp add: g1 g2 a z m nz zeros_def upt_rec)
qed

section \<open>MODE: properties of the entry points and of tell\<close>

text \<open>
  C10.  For every optimizer \<open>opt\<close> and every caller buffer \<open>xs\<close>,
  \<open>populationMODE_C\<close> leaves \<open>xs\<close> as it was, so the population is not written out,
  and returns the stop flag of \<open>opt\<close>.
\<close>

theorem populationMODE_C_leaves_xs:
  "populationMODE_C opt xs = (xs, stop opt)"
  by (simp add: populationMODE_C_def getStop_def Let_def)

text \<open>
  C6 fails on the code.  With one objective, one constraint and two slots the buffer
  \<open>[1, 10, 2, 20]\<close> holds the columns \<open>[1, 10]\<close> and \<open>[2, 20]\<close>.
  \<open>tellMODE_C\<close> reads one value per slot at stride \<open>nobj\<close>: its columns are \<open>[1]\<close>
  and \<open>[10]\<close>, no constraint value is read as one, and the columns are too short for
  \<open>tellAll\<close> to store.
\<close>

theorem tellMODE_C_reads_nobj_values:
  "tellMODE_C_vals mode_example [1, 10, 2, 20] = [[1], [10]]
   \<and> tellMODE_C_vals mode_example [1, 10, 2, 20] \<noteq> [[1, 10], [2, 20]]
   \<and> tellMODE_C stable_sort_index (\<lambda>m. m) mode_example [1, 10, 2, 20] = None"
  by (simp add: tellMODE_C_def tellAll_def tellMODE_C_vals_def mode_example_def upt_rec)

subsection \<open>tell\<close>

lemma first_free_le: "first_free bs \<le> length bs"
  by (induction bs) auto

lemma first_free_before: "i < first_free bs \<Longrightarrow> bs ! i"
  by (induction bs arbitrary: i) (auto simp: nth_Cons' split: if_splits)

lemma first_free_at: "first_free bs < length bs \<Longrightarrow> \<not> bs ! first_free bs"
  by (induction bs) auto

lemma first_free_less: "length (filter (\<lambda>b. b) bs) < length bs \<Longrightarrow> first_free bs < length bs"
  by (induction bs) auto

lemma flush_closed:
  assumes "distinct dps"
    and "p + length (filter (\<lambda>i. vdone st ! i) dps) \<le> length (popX st)"
    and "length (popY st) = length (popX st)"
  shows "flush dps p st = Some (st\<lparr>
      popX := take p (popX st) @ map ((!) (nX st)) (filter (\<lambda>i. vdone st ! i) dps)
                @ drop (p + length (filter (\<lambda>i. vdone st ! i) dps)) (popX st),
      popY := take p (popY st) @ map ((!) (nY st)) (filter (\<lambda>i. vdone st ! i) dps)
                @ drop (p + length (filter (\<lambda>i. vdone st ! i) dps)) (popY st),
      vdone := map (\<lambda>i. vdone st ! i \<and> i \<notin> set dps) [0..<length (vdone st)]\<rparr>)"
  using assms
proof (induction dps arbitrary: p st)
  case Nil
  then show ?case by (simp add: map_nth)
next
  case (Cons dp dps)
  show ?case
  proof (cases "vdone st ! dp")
    case False
    have "map (\<lambda>i. vdone st ! i \<and> i \<notin> set dps) [0..<length (vdone st)]
        = map (\<lambda>i. vdone st ! i \<and> i \<noteq> dp \<and> i \<notin> set dps) [0..<length (vdone st)]"
      using False by (intro map_cong) auto
    with False Cons show ?thesis by simp
  next
    case True
    define st1 where "st1 = st\<lparr>popX := (popX st)[p := nX st ! dp],
                     popY := (popY st)[p := nY st ! dp],
                     vdone := (vdone st)[dp := False]\<rparr>"
    have p: "p < length (popX st)" "p < length (popY st)" using Cons.prems True by simp_all
    have f: "filter (\<lambda>i. vdone st1 ! i) dps = filter (\<lambda>i. vdone st ! i) dps"
    proof (rule filter_cong [OF refl])
      fix x assume "x \<in> set dps"
      with Cons.prems(1) have "dp \<noteq> x" by auto
      then show "vdone st1 ! x = vdone st ! x" by (simp add: st1_def)
    qed
    have step: "flush (dp # dps) p st = flush dps (p + 1) st1"
      using True p by (simp add: st1_def Let_def)
    have ih: "flush dps (p + 1) st1 = Some (st1\<lparr>
      popX := take (p + 1) (popX st1) @ map ((!) (nX st1)) (filter (\<lambda>i. vdone st1 ! i) dps)
                @ drop (p + 1 + length (filter (\<lambda>i. vdone st1 ! i) dps)) (popX st1),
      popY := take (p + 1) (popY st1) @ map ((!) (nY st1)) (filter (\<lambda>i. vdone st1 ! i) dps)
                @ drop (p + 1 + length (filter (\<lambda>i. vdone st1 ! i) dps)) (popY st1),
      vdone := map (\<lambda>i. vdone st1 ! i \<and> i \<notin> set dps) [0..<length (vdone st1)]\<rparr>)"
    proof (rule Cons.IH)
      show "distinct dps" using Cons.prems by simp
      show "p + 1 + length (filter (\<lambda>i. vdone st1 ! i) dps) \<le> length (popX st1)"
        using Cons.prems True by (simp add: f) (simp add: st1_def)
      show "length (popY st1) = length (popX st1)" using Cons.prems by (simp add: st1_def)
    qed
    have v: "map (\<lambda>i. vdone st1 ! i \<and> i \<notin> set dps) [0..<length (vdone st1)]
        = map (\<lambda>i. vdone st ! i \<and> i \<notin> set (dp # dps)) [0..<length (vdone st)]"
    proof -
      have "(vdone st)[dp := False] ! i = (vdone st ! i \<and> i \<noteq> dp)" if "i < length (vdone st)" for i
        using that by (cases "i = dp") simp_all
      then show ?thesis by (auto simp: st1_def intro!: map_cong)
    qed
    have tx: "take (p + 1) (popX st1) = take p (popX st) @ [nX st ! dp]"
      using p by (simp add: st1_def take_Suc_conv_app_nth)
    have ty: "take (p + 1) (popY st1) = take p (popY st) @ [nY st ! dp]"
      using p by (simp add: st1_def take_Suc_conv_app_nth)
    show ?thesis
      unfolding step ih f v tx ty using True by (simp add: st1_def)
  qed
qed

lemma is_dominated_iff:
  "is_dominated st y p \<longleftrightarrow> (\<forall>j<length y. \<not> y ! j < popY st ! p ! j)"
  by (auto simp: is_dominated_def list_all_iff)

lemma count_mark:
  "dp < length bs \<Longrightarrow> \<not> bs ! dp
    \<Longrightarrow> length (filter (\<lambda>b. b) (bs[dp := True])) = length (filter (\<lambda>b. b) bs) + 1"
proof (induction bs arbitrary: dp)
  case Nil
  then show ?case by simp
next
  case (Cons b bs)
  then show ?case by (cases dp) auto
qed

lemma length_ready: "length (ready bs) = length (filter (\<lambda>b. b) bs)"
proof (induction bs rule: rev_induct)
  case Nil
  show ?case by (simp add: ready_def)
next
  case (snoc b bs)
  have "filter (\<lambda>i. (bs @ [b]) ! i) [0..<length bs] = filter (\<lambda>i. bs ! i) [0..<length bs]"
    by (rule filter_cong) (simp_all add: nth_append)
  with snoc show ?case by (simp add: ready_def)
qed

text \<open>
  C5.  Let \<open>st\<close> be an optimizer with \<open>2 * popsize\<close> population columns and pending
  slots of which fewer than \<open>popsize\<close> are ready (the constructor allocates them so,
  with no slot ready, and \<open>tell\<close> keeps this shape, see \<open>tell_keeps_shape\<close> below).
  If no component of \<open>y\<close> is strictly smaller than the one of
  \<open>popY[., p]\<close>, \<open>tell\<close> returns the stop flag and leaves the optimizer as it was:
  nothing is admitted.  Otherwise \<open>(x, y)\<close> is stored in the first pending slot
  \<open>dp\<close> that is not ready and \<open>dp\<close> is marked ready.  If fewer than \<open>popsize\<close> slots
  are ready then, that is all, apart from \<open>n_evals + 1\<close>.  If \<open>popsize\<close> are ready, the
  ready results are written, in slot order, to the columns \<open>popsize, ..., 2 * popsize - 1\<close>
  of \<open>popX\<close> and \<open>popY\<close>, all slots are marked free, and \<open>pop_update\<close> runs on that
  state.
\<close>

theorem tell_spec:
  assumes N: "0 < popsize st"
    and lv: "length (vdone st) = 2 * popsize st"
    and lx: "length (popX st) = 2 * popsize st" and ly: "length (popY st) = 2 * popsize st"
    and lnx: "length (nX st) = 2 * popsize st" and lny: "length (nY st) = 2 * popsize st"
    and pending: "length (filter (\<lambda>b. b) (vdone st)) < popsize st"
  shows "((\<forall>j<length y. \<not> y ! j < popY st ! p ! j) \<longrightarrow>
            tell si variation y x p st = Some (stop st, st))
    \<and> ((\<exists>j<length y. y ! j < popY st ! p ! j) \<longrightarrow>
        (let dp = first_free (vdone st);
             st1 = st\<lparr>nX := (nX st)[dp := x], nY := (nY st)[dp := y],
                       vdone := (vdone st)[dp := True]\<rparr>
         in dp < length (vdone st) \<and> \<not> vdone st ! dp \<and> (\<forall>i<dp. vdone st ! i)
            \<and> nX st1 ! dp = x \<and> nY st1 ! dp = y \<and> vdone st1 ! dp
            \<and> (if length (filter (\<lambda>b. b) (vdone st)) + 1 < popsize st
               then tell si variation y x p st = Some (stop st, st1\<lparr>n_evals := n_evals st + 1\<rparr>)
               else length (ready (vdone st1)) = popsize st \<and>
                    tell si variation y x p st =
                      (case pop_update si variation
                         (st1\<lparr>popX := take (popsize st) (popX st)
                                        @ map ((!) (nX st1)) (ready (vdone st1)),
                               popY := take (popsize st) (popY st)
                                        @ map ((!) (nY st1)) (ready (vdone st1)),
                               vdone := replicate (2 * popsize st) False\<rparr>) of
                         None \<Rightarrow> None
                       | Some st2 \<Rightarrow> Some (stop st2, st2\<lparr>n_evals := n_evals st2 + 1\<rparr>)))))"
proof (intro conjI impI)
  assume "\<forall>j<length y. \<not> y ! j < popY st ! p ! j"
  then have "is_dominated st y p" by (simp add: is_dominated_iff)
  then show "tell si variation y x p st = Some (stop st, st)" by (simp add: tell_def)
next
  assume "\<exists>j<length y. y ! j < popY st ! p ! j"
  then have nd: "\<not> is_dominated st y p" by (simp add: is_dominated_iff)
  define dp where "dp = first_free (vdone st)"
  define st1 where "st1 = st\<lparr>nX := (nX st)[dp := x], nY := (nY st)[dp := y],
                       vdone := (vdone st)[dp := True]\<rparr>"
  have dp: "dp < length (vdone st)"
    unfolding dp_def using pending lv by (intro first_free_less) simp
  have free: "\<not> vdone st ! dp" unfolding dp_def using dp first_free_at by (simp add: dp_def)
  have before: "\<forall>i<dp. vdone st ! i" unfolding dp_def using first_free_before by blast
  have stored: "nX st1 ! dp = x" "nY st1 ! dp = y" "vdone st1 ! dp"
    using dp lv lnx lny by (simp_all add: st1_def)
  have cnt: "length (filter (\<lambda>b. b) (vdone st1)) = length (filter (\<lambda>b. b) (vdone st)) + 1"
    using count_mark [OF dp free] by (simp add: st1_def)
  have tell_eq: "tell si variation y x p st =
      (if popsize st \<le> length (filter (\<lambda>b. b) (vdone st1)) then
         (case flush [0..<length (vdone st1)] (popsize st) st1 of
            None \<Rightarrow> None
          | Some st \<Rightarrow>
              (case pop_update si variation st of
                 None \<Rightarrow> None
               | Some st \<Rightarrow> Some (stop st, st\<lparr>n_evals := n_evals st + 1\<rparr>)))
       else Some (stop st, st1\<lparr>n_evals := n_evals st + 1\<rparr>))"
    using nd dp by (simp add: tell_def Let_def dp_def [symmetric] st1_def [symmetric])
      (simp add: st1_def)
  have rest: "if length (filter (\<lambda>b. b) (vdone st)) + 1 < popsize st
       then tell si variation y x p st = Some (stop st, st1\<lparr>n_evals := n_evals st + 1\<rparr>)
       else length (ready (vdone st1)) = popsize st \<and>
            tell si variation y x p st =
              (case pop_update si variation
                 (st1\<lparr>popX := take (popsize st) (popX st) @ map ((!) (nX st1)) (ready (vdone st1)),
                       popY := take (popsize st) (popY st) @ map ((!) (nY st1)) (ready (vdone st1)),
                       vdone := replicate (2 * popsize st) False\<rparr>) of
                 None \<Rightarrow> None
               | Some st2 \<Rightarrow> Some (stop st2, st2\<lparr>n_evals := n_evals st2 + 1\<rparr>))"
  proof (cases "length (filter (\<lambda>b. b) (vdone st)) + 1 < popsize st")
    case True
    then show ?thesis using tell_eq cnt by simp
  next
    case False
    with pending have full: "length (filter (\<lambda>b. b) (vdone st1)) = popsize st"
      using cnt by simp
    have r: "filter (\<lambda>i. vdone st1 ! i) [0..<length (vdone st1)] = ready (vdone st1)"
      by (simp add: ready_def)
    have lr: "length (ready (vdone st1)) = popsize st"
      using full by (simp add: length_ready)
    have l1: "length (vdone st1) = 2 * popsize st" "length (popX st1) = 2 * popsize st"
      "length (popY st1) = 2 * popsize st"
      using lv lx ly by (simp_all add: st1_def)
    have fl: "flush [0..<length (vdone st1)] (popsize st) st1 = Some (st1\<lparr>
        popX := take (popsize st) (popX st) @ map ((!) (nX st1)) (ready (vdone st1)),
        popY := take (popsize st) (popY st) @ map ((!) (nY st1)) (ready (vdone st1)),
        vdone := replicate (2 * popsize st) False\<rparr>)"
    proof -
      have v: "map (\<lambda>i. vdone st1 ! i \<and> i \<notin> set [0..<length (vdone st1)]) [0..<length (vdone st1)]
          = replicate (2 * popsize st) False"
        using l1 by (auto simp: list_eq_iff_nth_eq)
      have d: "distinct [0..<length (vdone st1)]" by simp
      have c: "popsize st + length (filter (\<lambda>i. vdone st1 ! i) [0..<length (vdone st1)])
          \<le> length (popX st1)"
        unfolding r using l1 lr by simp
      have e: "length (popY st1) = length (popX st1)" using l1 by simp
      note flush_closed [OF d c e, unfolded r]
      then show ?thesis
        unfolding v using l1 lr by (simp add: st1_def)
    qed
    show ?thesis
      using False lr tell_eq full fl by simp
  qed
  show "let dp = first_free (vdone st);
            st1 = st\<lparr>nX := (nX st)[dp := x], nY := (nY st)[dp := y],
                      vdone := (vdone st)[dp := True]\<rparr>
        in dp < length (vdone st) \<and> \<not> vdone st ! dp \<and> (\<forall>i<dp. vdone st ! i)
           \<and> nX st1 ! dp = x \<and> nY st1 ! dp = y \<and> vdone st1 ! dp
           \<and> (if length (filter (\<lambda>b. b) (vdone st)) + 1 < popsize st
              then tell si variation y x p st = Some (stop st, st1\<lparr>n_evals := n_evals st + 1\<rparr>)
              else length (ready (vdone st1)) = popsize st \<and>
                   tell si variation y x p st =
                     (case pop_update si variation
                        (st1\<lparr>popX := take (popsize st) (popX st)
                                       @ map ((!) (nX st1)) (ready (vdone st1)),
                              popY := take (popsize st) (popY st)
                                       @ map ((!) (nY st1)) (ready (vdone st1)),
                              vdone := replicate (2 * popsize st) False\<rparr>) of
                        None \<Rightarrow> None
                      | Some st2 \<Rightarrow> Some (stop st2, st2\<lparr>n_evals := n_evals st2 + 1\<rparr>)))"
    unfolding Let_def dp_def [symmetric] st1_def [symmetric]
    using dp free before stored rest by blast
qed

theorem tell_spec_witness:
  "tell stable_sort_index (\<lambda>m. m) [9, 9] [11] 0 tell_example = Some (0, tell_example)
   \<and> tell stable_sort_index (\<lambda>m. m) [0, 0] [11] 0 tell_example =
       Some (0, tell_example\<lparr>n_evals := 1,
                  popX := [[11], [10], [50], [11]], popY := [[0, 0], [1, 3], [5, 9], [0, 0]],
                  nX := [[50], [11], [0], [0]], nY := [[5, 9], [0, 0], [8, 8], [8, 8]],
                  vdone := [False, False, False, False]\<rparr>)"
proof
  have h: "0 < popsize tell_example" "length (vdone tell_example) = 2 * popsize tell_example"
    "length (popX tell_example) = 2 * popsize tell_example"
    "length (popY tell_example) = 2 * popsize tell_example"
    "length (nX tell_example) = 2 * popsize tell_example"
    "length (nY tell_example) = 2 * popsize tell_example"
    "length (filter (\<lambda>b. b) (vdone tell_example)) < popsize tell_example"
    by (simp_all add: tell_example_def)
  note spec = tell_spec [OF h, of _ 0 stable_sort_index "\<lambda>m. m" "[11]"]
  have "\<forall>j<length [9, 9 :: real]. \<not> [9, 9] ! j < popY tell_example ! 0 ! j"
    by (simp add: tell_example_def less_Suc_eq)
  with spec [of "[9, 9]", THEN conjunct1]
  show "tell stable_sort_index (\<lambda>m. m) [9, 9] [11] 0 tell_example = Some (0, tell_example)"
    by (simp add: tell_example_def)
  have f: "first_free (vdone tell_example) = 1"
    by (simp add: tell_example_def)
  have r: "ready ((vdone tell_example)[Suc 0 := True]) = [0, Suc 0]"
    by (simp add: tell_example_def ready_def)
  have z: "replicate (2 * popsize tell_example) False = [False, False, False, False]"
    by (simp add: tell_example_def eval_nat_numeral)
  have c: "\<not> length (filter (\<lambda>b. b) (vdone tell_example)) + 1 < popsize tell_example"
    by (simp add: tell_example_def)
  have "\<exists>j<length [0, 0 :: real]. [0, 0] ! j < popY tell_example ! 0 ! j"
    by (rule exI [of _ 0]) (simp add: tell_example_def)
  with spec [of "[0, 0]", THEN conjunct2]
  have "tell stable_sort_index (\<lambda>m. m) [0, 0] [11] 0 tell_example =
      (case pop_update stable_sort_index (\<lambda>m. m)
         (tell_example\<lparr>nX := (nX tell_example)[1 := [11]], nY := (nY tell_example)[1 := [0, 0]],
            vdone := (vdone tell_example)[1 := True],
            popX := take (popsize tell_example) (popX tell_example)
               @ map ((!) ((nX tell_example)[1 := [11]])) [0, 1],
            popY := take (popsize tell_example) (popY tell_example)
               @ map ((!) ((nY tell_example)[1 := [0, 0]])) [0, 1],
            vdone := [False, False, False, False]\<rparr>) of
         None \<Rightarrow> None
       | Some st2 \<Rightarrow> Some (stop st2, st2\<lparr>n_evals := n_evals st2 + 1\<rparr>))"
    unfolding Let_def f if_not_P [OF c] by (simp add: r z)
  also have "tell_example\<lparr>nX := (nX tell_example)[1 := [11]], nY := (nY tell_example)[1 := [0, 0]],
            vdone := (vdone tell_example)[1 := True],
            popX := take (popsize tell_example) (popX tell_example)
               @ map ((!) ((nX tell_example)[1 := [11]])) [0, 1],
            popY := take (popsize tell_example) (popY tell_example)
               @ map ((!) ((nY tell_example)[1 := [0, 0]])) [0, 1],
            vdone := [False, False, False, False]\<rparr>
      = tell_example\<lparr>popX := [[10], [20], [50], [11]], popY := [[1, 3], [5, 5], [5, 9], [0, 0]],
            nX := [[50], [11], [0], [0]], nY := [[5, 9], [0, 0], [8, 8], [8, 8]],
            vdone := [False, False, False, False]\<rparr>"
    by (simp add: tell_example_def)
  also have "pop_update stable_sort_index (\<lambda>m. m)
         (tell_example\<lparr>popX := [[10], [20], [50], [11]], popY := [[1, 3], [5, 5], [5, 9], [0, 0]],
            nX := [[50], [11], [0], [0]], nY := [[5, 9], [0, 0], [8, 8], [8, 8]],
            vdone := [False, False, False, False]\<rparr>)
      = Some (tell_example\<lparr>popX := [[11], [10], [50], [11]], popY := [[0, 0], [1, 3], [5, 9], [0, 0]],
            nX := [[50], [11], [0], [0]], nY := [[5, 9], [0, 0], [8, 8], [8, 8]],
            vdone := [False, False, False, False]\<rparr>)"
    unfolding tell_example_def by code_simp
  finally show "tell stable_sort_index (\<lambda>m. m) [0, 0] [11] 0 tell_example =
       Some (0, tell_example\<lparr>n_evals := 1,
                  popX := [[11], [10], [50], [11]], popY := [[0, 0], [1, 3], [5, 9], [0, 0]],
                  nX := [[50], [11], [0], [0]], nY := [[5, 9], [0, 0], [8, 8], [8, 8]],
                  vdone := [False, False, False, False]\<rparr>)"
    by (simp add: tell_example_def)
qed

text \<open>
  The shape that \<open>tell_spec\<close> asks of the optimizer is kept by every \<open>tell\<close> that
  returns.
\<close>

lemma pop_update_shape:
  assumes "pop_update si variation st = Some st'"
    and "MoDeOptimizer.popsize st \<le> length (MoDeOptimizer.popX st)"
    and "MoDeOptimizer.popsize st \<le> length (MoDeOptimizer.popY st)"
  shows "MoDeOptimizer.popsize st' = MoDeOptimizer.popsize st \<and> vdone st' = vdone st
    \<and> nX st' = nX st \<and> nY st' = nY st
    \<and> length (MoDeOptimizer.popX st') = length (MoDeOptimizer.popX st)
    \<and> length (MoDeOptimizer.popY st') = length (MoDeOptimizer.popY st)"
proof -
  from assms obtain x y where
    l: "levels_loop si (MoDeOptimizer.popsize st) (fst (presort si st)) (snd (presort si st))
          (pareto si (nobj st) (ncon st) (snd (presort si st)))
          (Max (set (pareto si (nobj st) (ncon st) (snd (presort si st))))) ([], []) = Some (x, y)"
    and n: "\<not> (length x < MoDeOptimizer.popsize st \<or> length y < MoDeOptimizer.popsize st)"
    by (auto simp: pop_update_def Let_def split: option.splits prod.splits if_splits)
  from assms l n show ?thesis
    by (auto simp: pop_update_def Let_def split: prod.splits if_splits)
qed

lemma tell_keeps_shape:
  assumes N: "0 < MoDeOptimizer.popsize st"
    and lv: "length (vdone st) = 2 * MoDeOptimizer.popsize st"
    and lx: "length (MoDeOptimizer.popX st) = 2 * MoDeOptimizer.popsize st"
    and ly: "length (MoDeOptimizer.popY st) = 2 * MoDeOptimizer.popsize st"
    and lnx: "length (nX st) = 2 * MoDeOptimizer.popsize st"
    and lny: "length (nY st) = 2 * MoDeOptimizer.popsize st"
    and pending: "length (filter (\<lambda>b. b) (vdone st)) < MoDeOptimizer.popsize st"
    and t: "tell si variation y x p st = Some (r, st')"
  shows "0 < MoDeOptimizer.popsize st'
    \<and> length (vdone st') = 2 * MoDeOptimizer.popsize st'
    \<and> length (MoDeOptimizer.popX st') = 2 * MoDeOptimizer.popsize st'
    \<and> length (MoDeOptimizer.popY st') = 2 * MoDeOptimizer.popsize st'
    \<and> length (nX st') = 2 * MoDeOptimizer.popsize st'
    \<and> length (nY st') = 2 * MoDeOptimizer.popsize st'
    \<and> length (filter (\<lambda>b. b) (vdone st')) < MoDeOptimizer.popsize st'"
proof (cases "is_dominated st y p")
  case True
  with t have "st' = st" by (simp add: tell_def)
  with assms show ?thesis by simp
next
  case False
  define dp where "dp = first_free (vdone st)"
  define st1 where "st1 = st\<lparr>nX := (nX st)[dp := x], nY := (nY st)[dp := y],
                       vdone := (vdone st)[dp := True]\<rparr>"
  have dp: "dp < length (vdone st)"
    unfolding dp_def using pending lv by (intro first_free_less) simp
  have free: "\<not> vdone st ! dp" using dp first_free_at by (simp add: dp_def)
  have cnt: "length (filter (\<lambda>b. b) (vdone st1)) = length (filter (\<lambda>b. b) (vdone st)) + 1"
    using count_mark [OF dp free] by (simp add: st1_def)
  have l1: "length (vdone st1) = 2 * MoDeOptimizer.popsize st"
    "length (MoDeOptimizer.popX st1) = 2 * MoDeOptimizer.popsize st"
    "length (MoDeOptimizer.popY st1) = 2 * MoDeOptimizer.popsize st"
    "length (nX st1) = 2 * MoDeOptimizer.popsize st"
    "length (nY st1) = 2 * MoDeOptimizer.popsize st"
    "MoDeOptimizer.popsize st1 = MoDeOptimizer.popsize st"
    using lv lx ly lnx lny by (simp_all add: st1_def)
  have tell_eq: "tell si variation y x p st =
      (if MoDeOptimizer.popsize st \<le> length (filter (\<lambda>b. b) (vdone st1)) then
         (case flush [0..<length (vdone st1)] (MoDeOptimizer.popsize st) st1 of
            None \<Rightarrow> None
          | Some st \<Rightarrow>
              (case pop_update si variation st of
                 None \<Rightarrow> None
               | Some st \<Rightarrow> Some (stop st, st\<lparr>n_evals := n_evals st + 1\<rparr>)))
       else Some (stop st, st1\<lparr>n_evals := n_evals st + 1\<rparr>))"
    using False dp by (simp add: tell_def Let_def dp_def [symmetric] st1_def [symmetric])
      (simp add: st1_def)
  show ?thesis
  proof (cases "MoDeOptimizer.popsize st \<le> length (filter (\<lambda>b. b) (vdone st1))")
    case False
    with t tell_eq have "st' = st1\<lparr>n_evals := n_evals st + 1\<rparr>" by simp
    with False l1 N show ?thesis by simp
  next
    case True
    with pending cnt have full: "length (filter (\<lambda>b. b) (vdone st1)) = MoDeOptimizer.popsize st"
      by simp
    have d: "distinct [0..<length (vdone st1)]" by simp
    have c: "MoDeOptimizer.popsize st
          + length (filter (\<lambda>i. vdone st1 ! i) [0..<length (vdone st1)])
        \<le> length (MoDeOptimizer.popX st1)"
      using l1 full length_ready [of "vdone st1"] by (simp add: ready_def)
    have e: "length (MoDeOptimizer.popY st1) = length (MoDeOptimizer.popX st1)" using l1 by simp
    from flush_closed [OF d c e] obtain st2 where
      f: "flush [0..<length (vdone st1)] (MoDeOptimizer.popsize st) st1 = Some st2"
      and s2: "MoDeOptimizer.popsize st2 = MoDeOptimizer.popsize st"
        "vdone st2 = map (\<lambda>i. vdone st1 ! i \<and> i \<notin> set [0..<length (vdone st1)])
            [0..<length (vdone st1)]"
        "nX st2 = nX st1" "nY st2 = nY st1"
        "length (MoDeOptimizer.popX st2) = 2 * MoDeOptimizer.popsize st"
        "length (MoDeOptimizer.popY st2) = 2 * MoDeOptimizer.popsize st"
      using l1 full length_ready [of "vdone st1"] by (simp add: ready_def)
    have v2: "filter (\<lambda>b. b) (vdone st2) = []" "length (vdone st2) = 2 * MoDeOptimizer.popsize st"
      using s2(2) l1 by (simp_all add: filter_empty_conv)
    from t tell_eq True f obtain st3 where
      p: "pop_update si variation st2 = Some st3" and s3: "st' = st3\<lparr>n_evals := n_evals st3 + 1\<rparr>"
      by (auto split: option.splits)
    have "MoDeOptimizer.popsize st2 \<le> length (MoDeOptimizer.popX st2)"
      "MoDeOptimizer.popsize st2 \<le> length (MoDeOptimizer.popY st2)"
      using s2 by simp_all
    from pop_update_shape [OF p this] s2 s3 v2 l1 N show ?thesis by simp
  qed
qed

section \<open>MODE: properties of the survival step\<close>




lemma levels_from_empty [simp]: "levels_from dm hi (Suc hi) = []"
  by (simp add: levels_from_def)







lemma length_pareto_loop:
  "length msk = length y \<Longrightarrow> length dm = length y
    \<Longrightarrow> length (pareto_loop y index msk dm) = length y"
proof (induction y index msk dm rule: pareto_loop.induct)
  case (1 y index msk domination)
  show ?case
  proof (cases "index < length y")
    case True
    have "length (pareto_loop y (next_alive (kill_dominated y index msk) (index + 1))
         (kill_dominated y index msk) (count_alive (kill_dominated y index msk) domination))
        = length y"
      using True by (intro 1) (simp_all add: kill_dominated_def count_alive_def)
    with True show ?thesis by (subst pareto_loop.simps) simp
  next
    case False
    with 1 show ?thesis by (subst pareto_loop.simps) simp
  qed
qed

lemma length_pareto_levels [simp]: "length (pareto_levels y) = length y"
  by (simp add: pareto_levels_def length_pareto_loop)

lemma length_pareto [simp]: "length (pareto si n_obj n_con ys) = length ys"
  by (simp add: pareto_def Let_def length_add_at)






text \<open>
  A first generation.  The columns of \<open>first_generation\<close> have the domination scores
  1, 0, 0, 2, 1 and 1, so with three slots column 3 survives first and the level of the
  columns 0, 4 and 5 is the one that does not fit.  Its crowding distances are all
  \<^verbatim>\<open>DBL_MAX\<close> (see \<open>crowd_dist_absorbs\<close>), and a sort that leaves equal entries in index
  order puts the evaluated columns 5 and 4 before column 0, which still holds
  \<^verbatim>\<open>DBL_MAX\<close>: the survivors are the columns 3, 5 and 4.
\<close>

lemma first_generation_scores:
  "pareto stable_sort_index 2 0 first_generation = [1, 0, 0, 2, 1, 1]"
  by code_simp

lemma first_generation_order:
  "crowd_order stable_sort_index first_generation [0, 4, 5] = [5, 4, 0]"
proof -
  have m: "map ((!) first_generation) [0, 4, 5] = [[DBL_MAX, DBL_MAX], [2, 3], [3, 2]]"
    by (simp add: first_generation_def)
  have s: "sort_index_cd stable_sort_index [Fin DBL_MAX, Fin DBL_MAX, Fin DBL_MAX] = [0, 1, 2]"
    by (simp add: sort_index_cd_def stable_sort_index_def upt_rec)
  show ?thesis
    unfolding crowd_order_def m crowd_dist_absorbs by (simp add: s)
qed

lemma first_generation_survivors:
  "map_option (\<lambda>st. take 3 (popX st))
      (pop_update stable_sort_index (\<lambda>m. m) first_generation_example)
    = Some [[10], [30], [20]]"
proof -
  define X :: mat where "X = [[100], [200], [300], [10], [20], [30]]"
  define dm :: "nat list" where "dm = [1, 0, 0, 2, 1, 1]"
  have ps: "presort stable_sort_index first_generation_example = (X, first_generation)"
    by (simp add: presort_def first_generation_example_def X_def)
  have sc: "pareto stable_sort_index 2 0 first_generation = dm"
    unfolding dm_def by (rule first_generation_scores)
  have mx: "Max (set dm) = 2" by (simp add: dm_def)
  have l2: "level dm 2 = [3]" unfolding dm_def by code_simp
  have l1: "level dm (Suc 0) = [0, 4, 5]" unfolding dm_def by code_simp
  have m: "map ((!) first_generation) [0, 4, 5] = [[DBL_MAX, DBL_MAX], [2, 3], [3, 2]]"
    by (simp add: first_generation_def)
  have mX: "map ((!) X) [0, 4, 5] = [[100], [20], [30]]" "map ((!) X) [3] = [[10]]"
    "map ((!) first_generation) [3] = [[1, 1]]"
    by (simp_all add: X_def first_generation_def)
  have s: "sort_index_cd stable_sort_index [Fin DBL_MAX, Fin DBL_MAX, Fin DBL_MAX] = [0, 1, 2]"
    by (simp add: sort_index_cd_def stable_sort_index_def upt_rec)
  have step1: "levels_loop stable_sort_index 3 X first_generation dm (Suc 0)
      ([[10]], [[1, 1]]) = Some ([[10], [30], [20]], [[1, 1], [3, 2], [2, 3]])"
    apply (subst levels_loop.simps)
    apply (simp only: Let_def l1 m mX crowd_dist_absorbs option.case s)
    apply simp
    done
  have "levels_loop stable_sort_index 3 X first_generation dm 2 ([], [])
      = levels_loop stable_sort_index 3 X first_generation dm (Suc 0) ([[10]], [[1, 1]])"
    apply (subst levels_loop.simps)
    apply (simp only: Let_def l2 mX)
    apply (simp add: numeral_2_eq_2)
    done
  with step1 have ll: "levels_loop stable_sort_index 3 X first_generation dm 2 ([], [])
      = Some ([[10], [30], [20]], [[1, 1], [3, 2], [2, 3]])"
    by simp
  have e: "nobj first_generation_example = 2" "ncon first_generation_example = 0"
    "popsize first_generation_example = 3" "\<not> nsga_update first_generation_example"
    "popX first_generation_example = X"
    by (simp_all add: first_generation_example_def X_def)
  show ?thesis
    unfolding pop_update_def ps by (simp add: e sc mx ll Let_def)
qed

section \<open>The evaluation budget of the drivers\<close>

subsection \<open>What asking and telling leave alone\<close>

lemma pop_update_frame:
  "pop_update si variation st = Some st' \<Longrightarrow>
    MoDeOptimizer.popsize st' = MoDeOptimizer.popsize st
    \<and> MoDeOptimizer.maxEvaluations st' = MoDeOptimizer.maxEvaluations st"
  by (auto simp: pop_update_def Let_def split: option.splits prod.splits if_splits)

lemma flush_frame:
  "flush dps p st = Some st' \<Longrightarrow>
    MoDeOptimizer.popsize st' = MoDeOptimizer.popsize st
    \<and> MoDeOptimizer.maxEvaluations st' = MoDeOptimizer.maxEvaluations st"
proof (induction dps p st rule: flush.induct)
  case (1 p st)
  then show ?case by simp
next
  case (2 dp dps p st)
  show ?case
  proof (cases "vdone st ! dp")
    case False
    with "2.prems" have "flush dps p st = Some st'" by simp
    from "2.IH"(2) [OF False this] show ?thesis .
  next
    case True
    define st1 where "st1 = st\<lparr>MoDeOptimizer.popX := (MoDeOptimizer.popX st)[p := nX st ! dp],
        MoDeOptimizer.popY := (MoDeOptimizer.popY st)[p := nY st ! dp],
        vdone := (vdone st)[dp := False]\<rparr>"
    from "2.prems" True have ok: "\<not> (length (MoDeOptimizer.popX st) \<le> p
        \<or> length (MoDeOptimizer.popY st) \<le> p)"
      by (auto split: if_splits)
    show ?thesis
    proof (cases "length (MoDeOptimizer.popY st1) \<le> p")
      case True
      with "2.prems" \<open>vdone st ! dp\<close> ok have "st' = st1"
        by (simp add: Let_def st1_def)
      then show ?thesis by (simp add: st1_def)
    next
      case False
      with "2.prems" \<open>vdone st ! dp\<close> ok have r: "flush dps (p + 1) st1 = Some st'"
        by (simp add: Let_def st1_def)
      from "2.IH"(1) [OF \<open>vdone st ! dp\<close> ok st1_def False r] show ?thesis
        by (simp add: st1_def)
    qed
  qed
qed

lemma tell_frame:
  assumes "tell si variation y x p st = Some (r, st')"
  shows "MoDeOptimizer.popsize st' = MoDeOptimizer.popsize st
    \<and> MoDeOptimizer.maxEvaluations st' = MoDeOptimizer.maxEvaluations st"
proof (cases "is_dominated st y p")
  case True
  with assms show ?thesis by (simp add: tell_def)
next
  case False
  define dp where "dp = first_free (vdone st)"
  define st1 where "st1 = st\<lparr>nX := (nX st)[dp := x], nY := (nY st)[dp := y],
      vdone := (vdone st)[dp := True]\<rparr>"
  from assms False have dp: "\<not> length (vdone st) \<le> dp"
    by (auto simp: tell_def Let_def dp_def split: if_splits)
  show ?thesis
  proof (cases "MoDeOptimizer.popsize st1 \<le> length (filter (\<lambda>b. b) (vdone st1))")
    case False
    with assms \<open>\<not> is_dominated st y p\<close> dp have "st' = st1\<lparr>n_evals := n_evals st1 + 1\<rparr>"
      by (simp add: tell_def Let_def dp_def st1_def)
    then show ?thesis by (simp add: st1_def)
  next
    case True
    with assms \<open>\<not> is_dominated st y p\<close> dp obtain st2 st3 where
      f: "flush [0..<length (vdone st1)] (MoDeOptimizer.popsize st1) st1 = Some st2"
      and u: "pop_update si variation st2 = Some st3"
      and e: "st' = st3\<lparr>n_evals := n_evals st3 + 1\<rparr>"
      by (auto simp: tell_def Let_def dp_def st1_def split: option.splits)
    from flush_frame [OF f] pop_update_frame [OF u] e show ?thesis by (simp add: st1_def)
  qed
qed

lemma log_step_frame: "evaluations (snd (log_step p s)) = evaluations (snd (snd s))"
  by (simp add: log_step_def Let_def split: prod.splits)

lemma nextX_frame:
  assumes "nextX p s = Some (x, opt', a', fit')"
  shows "evaluations fit' = evaluations (snd (snd s))
    \<and> MoDeOptimizer.popsize opt' = MoDeOptimizer.popsize (fst s)
    \<and> MoDeOptimizer.maxEvaluations opt' = MoDeOptimizer.maxEvaluations (fst s)"
proof -
  obtain a fit where l: "log_step p s = (a, fit)" by (cases "log_step p s")
  have e: "evaluations fit = evaluations (snd (snd s))"
    using log_step_frame [of p s] l by simp
  show ?thesis
  proof (cases "nsga_update (fst s)")
    case True
    with assms l have "fit' = fit" "opt' = (fst s)\<lparr>vp := (vp (fst s) + 1) mod
        MoDeOptimizer.popsize (fst s)\<rparr>"
      by (simp_all add: nextX_def Let_def)
    with e show ?thesis by simp
  next
    case False
    with assms l have "fit' = fit" "opt' = fst s"
      by (auto simp: nextX_def Let_def split: option.splits)
    with e show ?thesis by simp
  qed
qed

lemma ask_frame:
  assumes "ask s = Some (xp, opt', a', fit')"
  shows "evaluations fit' = evaluations (snd (snd s))
    \<and> MoDeOptimizer.popsize opt' = MoDeOptimizer.popsize (fst s)
    \<and> MoDeOptimizer.maxEvaluations opt' = MoDeOptimizer.maxEvaluations (fst s)"
proof -
  from assms obtain x a where n: "nextX (mo_pos (fst (snd s))) s = Some (x, opt', a, fit')"
    by (auto simp: ask_def Let_def split: option.splits)
  from nextX_frame [OF n] show ?thesis .
qed

subsection \<open>The serial driver of MODE\<close>

lemma mode_slots_counts:
  "mode_slots obj ps s = Some s' \<Longrightarrow>
    evaluations (snd (snd s')) = evaluations (snd (snd s)) + int (length ps)
    \<and> MoDeOptimizer.popsize (fst s') = MoDeOptimizer.popsize (fst s)
    \<and> MoDeOptimizer.maxEvaluations (fst s') = MoDeOptimizer.maxEvaluations (fst s)"
proof (induction ps arbitrary: s)
  case Nil
  then show ?case by simp
next
  case (Cons p ps)
  from Cons.prems obtain x opt a fit where n: "nextX p s = Some (x, opt, a, fit)"
    by (auto split: option.splits)
  note k = nextX_frame [OF n]
  define opt1 where "opt1 = opt\<lparr>MoDeOptimizer.popX :=
      (MoDeOptimizer.popX opt)[MoDeOptimizer.popsize opt + p := x]\<rparr>"
  define y where "y = fst (mode_eval obj x fit)"
  define fit1 where "fit1 = snd (mode_eval obj x fit)"
  define opt2 where "opt2 = opt1\<lparr>MoDeOptimizer.popY :=
      (MoDeOptimizer.popY opt1)[MoDeOptimizer.popsize opt1 + p := y]\<rparr>"
  from Cons.prems n have r: "mode_slots obj ps (opt2, a, fit1) = Some s'"
    by (simp add: Let_def opt1_def opt2_def y_def fit1_def split: prod.splits)
  have "evaluations fit1 = evaluations fit + 1" by (simp add: fit1_def mode_eval_def)
  with Cons.IH [OF r] k show ?case by (simp add: opt2_def opt1_def)
qed

lemma mode_doOptimize_loop_counts:
  "mode_doOptimize_loop si variation obj fuel (opt, a, fit) = Some (opt', a', fit') \<Longrightarrow>
    evaluations fit' \<le> max (evaluations fit)
        (MoDeOptimizer.maxEvaluations opt + int (MoDeOptimizer.popsize opt) - 1)
    \<and> MoDeOptimizer.popsize opt' = MoDeOptimizer.popsize opt
    \<and> MoDeOptimizer.maxEvaluations opt' = MoDeOptimizer.maxEvaluations opt"
proof (induction fuel arbitrary: opt a fit)
  case 0
  then show ?case by simp
next
  case (Suc fuel)
  show ?case
  proof (cases "evaluations fit < MoDeOptimizer.maxEvaluations opt \<and> \<not> terminate fit")
    case False
    with Suc.prems show ?thesis by auto
  next
    case True
    with Suc.prems obtain o1 a1 f1 where
      s: "mode_slots obj [0..<MoDeOptimizer.popsize opt] (opt, a, fit) = Some (o1, a1, f1)"
      by (auto split: option.splits)
    with Suc.prems True obtain o2 where b: "pop_update si variation o1 = Some o2"
      by (auto split: option.splits)
    with Suc.prems True s have
      r: "mode_doOptimize_loop si variation obj fuel (o2, a1, f1) = Some (opt', a', fit')"
      by simp
    from mode_slots_counts [OF s] have c: "evaluations f1 = evaluations fit
        + int (MoDeOptimizer.popsize opt)"
      "MoDeOptimizer.popsize o1 = MoDeOptimizer.popsize opt"
      "MoDeOptimizer.maxEvaluations o1 = MoDeOptimizer.maxEvaluations opt"
      by simp_all
    from Suc.IH [OF r] pop_update_frame [OF b] c True show ?thesis
      by (auto simp: max_def)
  qed
qed

text \<open>
  Fuel, as for LDE: every round evaluates \<open>popsize\<close> times, so with more fuel than
  \<open>maxEvaluations - evaluations\<close> the result is the one of any larger amount.
\<close>

lemma mode_doOptimize_loop_fuel:
  "0 < MoDeOptimizer.popsize opt
    \<Longrightarrow> nat (MoDeOptimizer.maxEvaluations opt - evaluations fit) < fuel
    \<Longrightarrow> mode_doOptimize_loop si variation obj (fuel + k) (opt, a, fit)
        = mode_doOptimize_loop si variation obj fuel (opt, a, fit)"
proof (induction fuel arbitrary: opt a fit)
  case 0
  then show ?case by simp
next
  case (Suc fuel)
  show ?case
  proof (cases "evaluations fit < MoDeOptimizer.maxEvaluations opt \<and> \<not> terminate fit")
    case False
    then show ?thesis by auto
  next
    case True
    show ?thesis
    proof (cases "mode_slots obj [0..<MoDeOptimizer.popsize opt] (opt, a, fit)")
      case None
      with True show ?thesis by simp
    next
      case (Some s1)
      obtain o1 a1 f1 where s1: "s1 = (o1, a1, f1)" by (cases s1)
      from mode_slots_counts [OF Some [unfolded s1]] have c:
        "evaluations f1 = evaluations fit + int (MoDeOptimizer.popsize opt)"
        "MoDeOptimizer.popsize o1 = MoDeOptimizer.popsize opt"
        "MoDeOptimizer.maxEvaluations o1 = MoDeOptimizer.maxEvaluations opt"
        by simp_all
      show ?thesis
      proof (cases "pop_update si variation o1")
        case None
        with True Some s1 show ?thesis by simp
      next
        case (Some o2)
        note f = pop_update_frame [OF Some]
        have "0 < MoDeOptimizer.popsize o2" using f c Suc.prems(1) by simp
        moreover have "nat (MoDeOptimizer.maxEvaluations o2 - evaluations f1) < fuel"
        proof -
          from Suc.prems(1) have "1 \<le> int (MoDeOptimizer.popsize opt)" by simp
          with Suc.prems(2) True have
            "nat (MoDeOptimizer.maxEvaluations opt
                  - (evaluations fit + int (MoDeOptimizer.popsize opt))) < fuel"
            by linarith
          with f c show ?thesis by simp
        qed
        ultimately have "mode_doOptimize_loop si variation obj (fuel + k) (o2, a1, f1)
            = mode_doOptimize_loop si variation obj fuel (o2, a1, f1)"
          by (rule Suc.IH)
        with True Some
          \<open>mode_slots obj [0..<MoDeOptimizer.popsize opt] (opt, a, fit) = Some s1\<close> s1
        show ?thesis by simp
      qed
    qed
  qed
qed

subsection \<open>The parallel driver\<close>

lemma par_init_inv:
  assumes "0 < MoDeOptimizer.maxEvaluations (fst s)"
  shows "par_inv (MoDeOptimizer.maxEvaluations (fst s))
           (min workers (MoDeOptimizer.popsize (fst s))) (par_init workers s)"
  using assms by (cases s) (simp add: par_inv_def Let_def par_init_def)

lemma dispatch_counts:
  assumes "dispatch nxt ps = Some ps'" and "p_mode ps = (opt, a, fit)"
  shows "\<exists>opt' a' fit'. p_mode ps' = (opt', a', fit')
      \<and> evaluations fit' = evaluations fit
      \<and> MoDeOptimizer.maxEvaluations opt' = MoDeOptimizer.maxEvaluations opt
      \<and> p_place ps' = nxt \<and> p_workers ps' = p_workers ps
      \<and> length (p_jobs ps') = length (p_jobs ps) + 1
      \<and> p_results ps' = p_results ps"
proof -
  from assms(1) obtain x p s' where a: "ask (p_mode ps) = Some ((x, p), s')"
    and ps': "ps' = ps\<lparr>p_mode := s', p_place := nxt, p_jobs := p_jobs ps @ [(x, p)],
                  p_evals_x := (p_evals_x ps)[p := x]\<rparr>"
    by (auto simp: dispatch_def split: option.splits)
  obtain opt' a' fit' where s': "s' = (opt', a', fit')" by (cases s')
  from ask_frame [OF a [unfolded s']] assms(2) show ?thesis by (simp add: ps' s')
qed

lemma driver_step_inv:
  assumes M: "0 < M" and inv: "par_inv M W ps" and step: "driver_step si variation ps = Some ps'"
  shows "par_inv M W ps'"
proof -
  obtain opt a fit where m: "p_mode ps = (opt, a, fit)" by (cases "p_mode ps")
  from inv m have i: "MoDeOptimizer.maxEvaluations opt = M" "p_workers ps = W"
    "0 \<le> evaluations fit"
    "evaluations fit + int (length (p_jobs ps)) \<le> M + int W - 1"
    by (simp_all add: par_inv_def Let_def)
  show ?thesis
  proof (cases "p_place ps")
    case (Fill k)
    with inv m have f: "k \<le> W" "evaluations fit + int (length (p_jobs ps)) = int k"
      "int (length (p_results ps)) = evaluations fit"
      by (simp_all add: par_inv_def Let_def)
    show ?thesis
    proof (cases "k < W")
      case True
      with step Fill m i have "dispatch (Fill (k + 1)) ps = Some ps'"
        by (simp add: driver_step_def)
      from dispatch_counts [OF this m] obtain opt' a' fit' where
        d: "p_mode ps' = (opt', a', fit')" "evaluations fit' = evaluations fit"
        "MoDeOptimizer.maxEvaluations opt' = MoDeOptimizer.maxEvaluations opt"
        "p_place ps' = Fill (k + 1)" "p_workers ps' = p_workers ps"
        "length (p_jobs ps') = length (p_jobs ps) + 1" "p_results ps' = p_results ps"
        by blast
      with True f i M show ?thesis by (simp add: par_inv_def Let_def)
    next
      case False
      with step Fill m i have "ps' = ps\<lparr>p_place := Head\<rparr>"
        by (simp add: driver_step_def)
      with False f i m show ?thesis by (simp add: par_inv_def Let_def; linarith?)
    qed
  next
    case Head
    with inv m have h: "length (p_jobs ps) + length (p_results ps) = W"
      by (simp add: par_inv_def Let_def)
    from step Head m have "ps' = ps\<lparr>p_place := Fetch\<rparr> \<or> ps' = ps\<lparr>p_place := Finished\<rparr>"
      by (auto simp: driver_step_def split: if_splits)
    with h i m show ?thesis by (auto simp: par_inv_def Let_def)
  next
    case Fetch
    with inv m have h: "length (p_jobs ps) + length (p_results ps) = W"
      by (simp add: par_inv_def Let_def)
    from step Fetch m obtain y p rest r opt' where
      res: "p_results ps = (y, p) # rest"
      and t: "tell si variation y (p_evals_x ps ! p) p opt = Some (r, opt')"
      and ps': "ps' = ps\<lparr>p_mode := (opt', a, fit), p_place := Told, p_results := rest\<rparr>"
      by (auto simp: driver_step_def split: list.splits option.splits)
    from tell_frame [OF t] h i res show ?thesis by (simp add: par_inv_def Let_def ps')
  next
    case Told
    with inv m have h: "length (p_jobs ps) + length (p_results ps) + 1 = W"
      by (simp add: par_inv_def Let_def)
    show ?thesis
    proof (cases "MoDeOptimizer.maxEvaluations opt \<le> evaluations fit")
      case True
      with step Told m have "ps' = ps\<lparr>p_place := Finished\<rparr>"
        by (simp add: driver_step_def)
      with i m show ?thesis by (simp add: par_inv_def Let_def)
    next
      case False
      with step Told m have "dispatch Head ps = Some ps'"
        by (simp add: driver_step_def)
      from dispatch_counts [OF this m] obtain opt' a' fit' where
        d: "p_mode ps' = (opt', a', fit')" "evaluations fit' = evaluations fit"
        "MoDeOptimizer.maxEvaluations opt' = MoDeOptimizer.maxEvaluations opt"
        "p_place ps' = Head" "p_workers ps' = p_workers ps"
        "length (p_jobs ps') = length (p_jobs ps) + 1" "p_results ps' = p_results ps"
        by blast
      have "evaluations fit + int (length (p_jobs ps) + 1) \<le> M + int W - 1"
        using False h i(1) by linarith
      with d h i show ?thesis by (simp add: par_inv_def Let_def)
    qed
  next
    case Finished
    with step m show ?thesis by (simp add: driver_step_def)
  qed
qed

lemma worker_step_inv:
  assumes inv: "par_inv M W ps" and step: "worker_step obj j ps = Some ps'"
  shows "par_inv M W ps'"
proof -
  obtain opt a fit where m: "p_mode ps = (opt, a, fit)" by (cases "p_mode ps")
  from step have j: "j < length (p_jobs ps)" by (auto simp: worker_step_def split: if_splits)
  obtain x p where xp: "p_jobs ps ! j = (x, p)" by (cases "p_jobs ps ! j")
  obtain y fit' where e: "mode_eval obj x fit = (y, fit')" by (cases "mode_eval obj x fit")
  then have c: "evaluations fit' = evaluations fit + 1" by (auto simp: mode_eval_def)
  from step j m xp e have ps': "ps' = ps\<lparr>p_mode := (opt, a, fit'),
      p_jobs := take j (p_jobs ps) @ drop (Suc j) (p_jobs ps),
      p_results := p_results ps @ [(y, p)]\<rparr>"
    by (simp add: worker_step_def)
  have l: "length (take j (p_jobs ps) @ drop (Suc j) (p_jobs ps)) + 1 = length (p_jobs ps)"
    using j by simp
  from inv m have i: "MoDeOptimizer.maxEvaluations opt = M" "p_workers ps = W"
    "0 \<le> evaluations fit"
    "evaluations fit + int (length (p_jobs ps)) \<le> M + int W - 1"
    by (simp_all add: par_inv_def Let_def)
  show ?thesis
  proof (cases "p_place ps")
    case (Fill k)
    with inv m have "k \<le> W" "evaluations fit + int (length (p_jobs ps)) = int k"
      "int (length (p_results ps)) = evaluations fit"
      by (simp_all add: par_inv_def Let_def)
    with i c l j Fill show ?thesis by (simp add: par_inv_def Let_def ps'; linarith?)
  next
    case Head
    with inv m have "length (p_jobs ps) + length (p_results ps) = W"
      by (simp add: par_inv_def Let_def)
    with i c l j Head show ?thesis by (simp add: par_inv_def Let_def ps'; linarith?)
  next
    case Fetch
    with inv m have "length (p_jobs ps) + length (p_results ps) = W"
      by (simp add: par_inv_def Let_def)
    with i c l j Fetch show ?thesis by (simp add: par_inv_def Let_def ps'; linarith?)
  next
    case Told
    with inv m have "length (p_jobs ps) + length (p_results ps) + 1 = W"
      by (simp add: par_inv_def Let_def)
    with i c l j Told show ?thesis by (simp add: par_inv_def Let_def ps'; linarith?)
  next
    case Finished
    with i c l j show ?thesis by (simp add: par_inv_def Let_def ps'; linarith?)
  qed
qed

lemma par_run_inv:
  "0 < M \<Longrightarrow> par_inv M W ps \<Longrightarrow> par_run si variation obj sched ps = Some ps'
    \<Longrightarrow> par_inv M W ps'"
proof (induction sched arbitrary: ps)
  case Nil
  then show ?case by simp
next
  case (Cons t sched)
  show ?case
  proof (cases t)
    case Driver
    with Cons.prems(3) obtain ps1 where s: "driver_step si variation ps = Some ps1"
      and r: "par_run si variation obj sched ps1 = Some ps'"
      by (auto split: option.splits)
    from Cons.IH [OF Cons.prems(1) driver_step_inv [OF Cons.prems(1,2) s] r] show ?thesis .
  next
    case (Worker j)
    with Cons.prems(3) obtain ps1 where s: "worker_step obj j ps = Some ps1"
      and r: "par_run si variation obj sched ps1 = Some ps'"
      by (auto split: option.splits)
    from Cons.IH [OF Cons.prems(1) worker_step_inv [OF Cons.prems(2) s] r] show ?thesis .
  qed
qed

lemma par_inv_bound:
  assumes "par_inv M W ps"
  shows "evaluations (snd (snd (p_mode ps))) + int (length (p_jobs ps)) \<le> M + int W - 1"
  using assms by (cases "p_mode ps") (simp add: par_inv_def Let_def)

subsection \<open>The budget\<close>

text \<open>
  C1, as the code has it.  The serial drivers test the budget only between generations.
  An LDE run (\<open>doOptimize\<close>) that returns has performed at most
  \<open>maxEvaluations + 2 * popsize - 1\<close> evaluations (or as many as the wrapper had counted
  before, if that is more): each of the \<open>popsize\<close> slots of a generation evaluates once
  or twice.  This is for budgets with \<open>maxEvaluations + 2 * popsize - 1 < 2 ^ 31\<close>, where
  the \<^verbatim>\<open>int\<close> that \<open>getEvaluations\<close> returns is the counter.  A serial MODE run
  (\<open>mode_doOptimize\<close>), which resets the counter, has performed at most
  \<open>maxEvaluations + popsize - 1\<close> evaluations.  In a run of the parallel driver
  (\<open>do_optimize_delayed_update\<close>) with \<open>W = min workers popsize\<close> workers, under every
  schedule and at every moment, the evaluations performed and the jobs still in the queue
  are together at most \<open>maxEvaluations + W - 1\<close>: so is the total when the queue has
  been drained.  \<open>maxEvaluations\<close> is positive there, as the constructor makes it.
\<close>

theorem evaluation_budget:
  "(0 \<le> evaluationCounter (fitfun opt) \<and> evaluationCounter (fitfun opt) < 2 ^ 31
      \<and> LDeOptimizer.maxEvaluations opt + 2 * int (LDeOptimizer.popsize opt) - 1 < 2 ^ 31
      \<and> doOptimize fuel opt = Some opt' \<longrightarrow>
        evaluationCounter (fitfun opt')
          \<le> max (evaluationCounter (fitfun opt))
                (LDeOptimizer.maxEvaluations opt + 2 * int (LDeOptimizer.popsize opt) - 1))
   \<and> (mode_doOptimize si variation obj fuel' s = Some s' \<longrightarrow>
        evaluations (snd (snd s'))
          \<le> max 0 (MoDeOptimizer.maxEvaluations (fst s)
                     + int (MoDeOptimizer.popsize (fst s)) - 1))
   \<and> (0 < MoDeOptimizer.maxEvaluations (fst s)
      \<and> do_optimize_delayed_update si variation obj sched workers s = Some ps \<longrightarrow>
        evaluations (snd (snd (p_mode ps))) + int (length (p_jobs ps))
          \<le> MoDeOptimizer.maxEvaluations (fst s)
             + int (min workers (MoDeOptimizer.popsize (fst s))) - 1)"
proof (intro conjI impI)
  assume a: "0 \<le> evaluationCounter (fitfun opt) \<and> evaluationCounter (fitfun opt) < 2 ^ 31
      \<and> LDeOptimizer.maxEvaluations opt + 2 * int (LDeOptimizer.popsize opt) - 1 < 2 ^ 31
      \<and> doOptimize fuel opt = Some opt'"
  define o1 where "o1 = opt\<lparr>iterations := 1\<rparr>"
  from a have run: "doOptimize_loop fuel o1 = Some opt'"
    by (simp add: doOptimize_def o1_def)
  have 1: "0 \<le> evaluationCounter (fitfun o1)" using a by (simp add: o1_def)
  have 2: "evaluationCounter (fitfun o1) < 2 ^ 31" using a by (simp add: o1_def)
  have 3: "LDeOptimizer.maxEvaluations o1 + 2 * int (LDeOptimizer.popsize o1) - 1 < 2 ^ 31"
    using a by (simp add: o1_def)
  from doOptimize_loop_counts [OF run 1 2 3]
  show "evaluationCounter (fitfun opt')
      \<le> max (evaluationCounter (fitfun opt))
            (LDeOptimizer.maxEvaluations opt + 2 * int (LDeOptimizer.popsize opt) - 1)"
    by (simp add: o1_def)
next
  assume run: "mode_doOptimize si variation obj fuel' s = Some s'"
  obtain opt a fit where s: "s = (opt, a, fit)" by (cases s)
  obtain opt' a' fit' where s': "s' = (opt', a', fit')" by (cases s')
  from run have "mode_doOptimize_loop si variation obj fuel'
      (opt, a\<lparr>mo_iterations := 0\<rparr>, fit\<lparr>evaluations := 0\<rparr>) = Some (opt', a', fit')"
    by (simp add: mode_doOptimize_def s s')
  from mode_doOptimize_loop_counts [OF this]
  show "evaluations (snd (snd s'))
      \<le> max 0 (MoDeOptimizer.maxEvaluations (fst s) + int (MoDeOptimizer.popsize (fst s)) - 1)"
    by (simp add: s s')
next
  assume a: "0 < MoDeOptimizer.maxEvaluations (fst s)
      \<and> do_optimize_delayed_update si variation obj sched workers s = Some ps"
  then have M: "0 < MoDeOptimizer.maxEvaluations (fst s)"
    and run: "par_run si variation obj sched (par_init workers s) = Some ps"
    by (simp_all add: do_optimize_delayed_update_def)
  from par_run_inv [OF M par_init_inv [OF M] run]
  show "evaluations (snd (snd (p_mode ps))) + int (length (p_jobs ps))
      \<le> MoDeOptimizer.maxEvaluations (fst s)
         + int (min workers (MoDeOptimizer.popsize (fst s))) - 1"
    by (rule par_inv_bound)
qed

theorem evaluation_budget_witness:
  "(\<exists>opt'. doOptimize 2 int_opt = Some opt' \<and> evaluationCounter (fitfun opt') = 8
        \<and> evaluationCounter (fitfun opt') \<le> 1 + 2 * 4 - 1)
   \<and> (\<exists>s'. mode_doOptimize stable_sort_index (\<lambda>m. m) serial_objective 3
              (serial_example, ask_example, fit_example) = Some s'
        \<and> evaluations (snd (snd s')) = 4 \<and> evaluations (snd (snd s')) \<le> 3 + 2 - 1)
   \<and> (\<exists>ps. do_optimize_delayed_update stable_sort_index (\<lambda>m. m) serial_objective
              late_schedule 2 (serial_example, ask_example, fit_example) = Some ps
        \<and> p_place ps = Finished \<and> evaluations (snd (snd (p_mode ps))) = 4
        \<and> evaluations (snd (snd (p_mode ps))) + int (length (p_jobs ps)) \<le> 3 + 2 - 1)"
proof -
  note spec = evaluation_budget [of int_opt 2 _ stable_sort_index "\<lambda>m. m" serial_objective 3
      "(serial_example, ask_example, fit_example)" _ late_schedule 2]
  have "map_option (\<lambda>opt. evaluationCounter (fitfun opt)) (doOptimize 2 int_opt) = Some 8"
    by code_simp
  then obtain opt' where l: "doOptimize 2 int_opt = Some opt'"
    "evaluationCounter (fitfun opt') = 8"
    by auto
  have i: "evaluationCounter (fitfun int_opt) = 0" "LDeOptimizer.maxEvaluations int_opt = 1"
    "LDeOptimizer.popsize int_opt = 4"
    by (simp_all add: int_opt_def LDeOptimizer_new_def init_def Fitness_new_def Let_def)
  from spec [THEN conjunct1, rule_format, of opt'] l(1)
  have lb: "evaluationCounter (fitfun opt') \<le> 1 + 2 * 4 - 1" by (simp add: i)
  have "map_option (\<lambda>s. evaluations (snd (snd s)))
      (mode_doOptimize stable_sort_index (\<lambda>m. m) serial_objective 3
        (serial_example, ask_example, fit_example)) = Some 4"
    by code_simp
  then obtain s' where m: "mode_doOptimize stable_sort_index (\<lambda>m. m) serial_objective 3
      (serial_example, ask_example, fit_example) = Some s'"
    "evaluations (snd (snd s')) = 4"
    by auto
  from spec [THEN conjunct2, THEN conjunct1, rule_format, OF m(1)]
  have mb: "evaluations (snd (snd s')) \<le> 3 + 2 - 1" by (simp add: serial_example_def)
  have "map_option (\<lambda>ps. (p_place ps, evaluations (snd (snd (p_mode ps)))))
      (do_optimize_delayed_update stable_sort_index (\<lambda>m. m) serial_objective late_schedule 2
        (serial_example, ask_example, fit_example)) = Some (Finished, 4)"
    by code_simp
  then obtain ps where p: "do_optimize_delayed_update stable_sort_index (\<lambda>m. m)
      serial_objective late_schedule 2 (serial_example, ask_example, fit_example) = Some ps"
    "p_place ps = Finished" "evaluations (snd (snd (p_mode ps))) = 4"
    by auto
  from spec [THEN conjunct2, THEN conjunct2, rule_format, of ps] p(1)
  have pb: "evaluations (snd (snd (p_mode ps))) + int (length (p_jobs ps)) \<le> 3 + 2 - 1"
    by (simp add: serial_example_def)
  from l lb m mb p pb show ?thesis by blast
qed

text \<open>
  C1 as stated fails in serial mode.  \<^verbatim>\<open>optimizeLDE_C\<close> with one coordinate, four slots
  and \<open>maxEvals = 1\<close> returns with \<^verbatim>\<open>res[dim + 1]\<close>, the number of evaluations, equal
  to 8: the first generation evaluates twice in each slot before the budget is tested
  again.
\<close>

theorem optimizeLDE_overshoot_counterexample:
  "optimizeLDE_C 2 sphere 1 [2] [1 / 2] lde_seed [0] [0] 1 30 NInf 4 (1 / 2) (9 / 10)
      (1 / 10) (1 / 2) [False] = Some [2, DBL_MAX, 8, 2, 0]
   \<and> \<not> (8 :: real) \<le> 1"
proof -
  have "optimizeLDE_C 2 sphere 1 [2] [1 / 2] lde_seed [0] [0] 1 30 NInf 4 (1 / 2) (9 / 10)
            (1 / 10) (1 / 2) [False] = Some [2, DBL_MAX, 8, 2, 0]"
    by code_simp
  then show ?thesis by simp
qed

end
